theory Spec2Isabelle
  imports Main "HOL-Library.AList" "HOL-Library.Multiset"
begin

section \<open>The crossword constraint solver of week3/crossword/generate.py\<close>

subsection \<open>Data model\<close>

text \<open>
  Modelled from the spec: a Variable is one word slot, with its starting row and column,
  its orientation and its length; two variables are equal when all four agree. The class
  lives in the module crossword, which generate.py imports.
\<close>

datatype direction = ACROSS | DOWN

record variable =
  var_i :: nat
  var_j :: nat
  var_direction :: direction
  var_length :: nat

text \<open>
  Modelled from the spec: the grid model (class Crossword of the same module) is built
  once and read only. The solver reads four things from it: the set \<open>variables\<close>, the set
  \<open>words\<close>, the table \<open>overlaps\<close> and the method \<open>neighbors\<close>. The two sets are lists here,
  the list order being the order in which Python iterates over the set; \<open>neighbors\<close> returns
  a set as well, so it is a list per variable.
\<close>

record crossword =
  variables :: "variable list"
  words :: "string list"
  overlaps :: "variable \<times> variable \<Rightarrow> (nat \<times> nat) option"
  neighbors :: "variable \<Rightarrow> variable list"

datatype error = KeyError | IndexError | TypeError | AttributeError

text \<open>
  \<open>self.domains\<close> is a dict from variables to sets of words: an association list, whose
  order is the iteration order of the dict, with each set a list in its iteration order.
\<close>

type_synonym domains = "(variable \<times> string list) list"

text \<open>An assignment is a dict as well; a new key goes to the end.\<close>

type_synonym assignment = "(variable \<times> string) list"

text \<open>\<open>__init__\<close> gives every variable its own copy of the dictionary.\<close>

definition init :: "crossword \<Rightarrow> domains" where
  "init cw = map (\<lambda>var. (var, words cw)) (variables cw)"

text \<open>
  Modelled from the spec: \<open>overlaps\<close> has one key for every ordered pair of distinct
  variables of the grid, bound to None or to a pair of indices; any other key raises.
\<close>

definition overlaps_get :: "crossword \<Rightarrow> variable \<Rightarrow> variable \<Rightarrow> error + (nat \<times> nat) option" where
  "overlaps_get cw x y =
     (if x \<noteq> y \<and> x \<in> set (variables cw) \<and> y \<in> set (variables cw)
      then Inr (overlaps cw (x, y)) else Inl KeyError)"

text \<open>\<open>s.remove(w)\<close> on a set raises when \<open>w\<close> is not a member.\<close>

definition set_remove :: "string \<Rightarrow> string list \<Rightarrow> error + string list" where
  "set_remove w ws = (if w \<in> set ws then Inr (removeAll w ws) else Inl KeyError)"

subsection \<open>Node consistency\<close>

fun enforce_words :: "variable \<Rightarrow> string list \<Rightarrow> domains \<Rightarrow> error + domains" where
  "enforce_words var [] doms = Inr doms"
| "enforce_words var (word # rest) doms =
     (if length word \<noteq> var_length var then
        (case map_of doms var of
           None \<Rightarrow> Inl KeyError
         | Some ws \<Rightarrow>
             (case set_remove word ws of
                Inl e \<Rightarrow> Inl e
              | Inr ws' \<Rightarrow> enforce_words var rest (AList.update var ws' doms)))
      else enforce_words var rest doms)"

fun enforce_vars :: "crossword \<Rightarrow> variable list \<Rightarrow> domains \<Rightarrow> error + domains" where
  "enforce_vars cw [] doms = Inr doms"
| "enforce_vars cw (var # rest) doms =
     (case enforce_words var (words cw) doms of
        Inl e \<Rightarrow> Inl e
      | Inr doms' \<Rightarrow> enforce_vars cw rest doms')"

definition enforce_node_consistency :: "crossword \<Rightarrow> domains \<Rightarrow> error + domains" where
  "enforce_node_consistency cw doms = enforce_vars cw (variables cw) doms"

subsection \<open>Arc consistency\<close>

text \<open>
  The generator inside \<open>any\<close> indexes the words of \<open>y\<close>'s domain one by one and stops at the
  first match; a word too short for the index raises before a later match is seen.
\<close>

fun any_match :: "nat \<Rightarrow> char \<Rightarrow> string list \<Rightarrow> error + bool" where
  "any_match k letter [] = Inr False"
| "any_match k letter (y_word # rest) =
     (if k < length y_word then
        (if y_word ! k = letter then Inr True else any_match k letter rest)
      else Inl IndexError)"

fun revise_words ::
  "variable \<Rightarrow> variable \<Rightarrow> nat \<times> nat \<Rightarrow> string list \<Rightarrow> domains \<Rightarrow> bool \<Rightarrow> error + (bool \<times> domains)" where
  "revise_words x y ov [] doms revision_made = Inr (revision_made, doms)"
| "revise_words x y ov (word # rest) doms revision_made =
     (if fst ov < length word then
        (case map_of doms y of
           None \<Rightarrow> Inl KeyError
         | Some ys \<Rightarrow>
             (case any_match (snd ov) (word ! fst ov) ys of
                Inl e \<Rightarrow> Inl e
              | Inr possible_word \<Rightarrow>
                  (if \<not> possible_word then
                     (case map_of doms x of
                        None \<Rightarrow> Inl KeyError
                      | Some xs \<Rightarrow>
                          (case set_remove word xs of
                             Inl e \<Rightarrow> Inl e
                           | Inr xs' \<Rightarrow> revise_words x y ov rest (AList.update x xs' doms) True))
                   else revise_words x y ov rest doms revision_made)))
      else Inl IndexError)"

definition revise :: "crossword \<Rightarrow> variable \<Rightarrow> variable \<Rightarrow> domains \<Rightarrow> error + (bool \<times> domains)" where
  "revise cw x y doms =
     (case overlaps_get cw x y of
        Inl e \<Rightarrow> Inl e
      | Inr None \<Rightarrow> Inr (False, doms)
      | Inr (Some ov) \<Rightarrow>
          (case map_of doms x of
             None \<Rightarrow> Inl KeyError
           | Some xs \<Rightarrow> revise_words x y ov xs doms False))"

definition store_size :: "domains \<Rightarrow> nat" where
  "store_size doms = sum_list (map (\<lambda>p. length (snd p)) doms)"

lemma store_size_update_le:
  "map_of doms x = Some xs \<Longrightarrow> length xs' \<le> length xs \<Longrightarrow>
   store_size (AList.update x xs' doms) \<le> store_size doms"
  by (induction doms) (auto simp: store_size_def)

lemma store_size_update_less:
  "map_of doms x = Some xs \<Longrightarrow> length xs' < length xs \<Longrightarrow>
   store_size (AList.update x xs' doms) < store_size doms"
  by (induction doms) (auto simp: store_size_def)

lemma length_removeAll_less_mem: "w \<in> set ws \<Longrightarrow> length (removeAll w ws) < length ws"
  by (induction ws) (auto simp: less_Suc_eq_le)

lemma revise_words_size:
  "revise_words x y ov ws doms rm = Inr (b, doms') \<Longrightarrow>
   (rm \<longrightarrow> b) \<and> store_size doms' \<le> store_size doms \<and>
   (b \<and> \<not> rm \<longrightarrow> store_size doms' < store_size doms) \<and> (\<not> b \<longrightarrow> doms' = doms)"
proof (induction ws arbitrary: doms rm)
  case Nil
  then show ?case by simp
next
  case (Cons word rest)
  show ?case
  proof (cases "fst ov < length word")
    case False
    with Cons.prems show ?thesis by simp
  next
    case inrange: True
    from Cons.prems inrange obtain ys where ys: "map_of doms y = Some ys"
      by (auto split: option.splits)
    from Cons.prems inrange ys obtain possible where
      possible: "any_match (snd ov) (word ! fst ov) ys = Inr possible"
      by (auto split: sum.splits)
    show ?thesis
    proof (cases possible)
      case True
      with Cons.prems inrange ys possible
      have "revise_words x y ov rest doms rm = Inr (b, doms')" by simp
      from Cons.IH [OF this] show ?thesis .
    next
      case False
      from Cons.prems inrange ys possible False obtain xs where xs: "map_of doms x = Some xs"
        by (auto split: option.splits)
      from Cons.prems inrange ys possible False xs have mem: "word \<in> set xs"
        by (auto simp: set_remove_def split: if_splits)
      from Cons.prems inrange ys possible False xs mem
      have step: "revise_words x y ov rest (AList.update x (removeAll word xs) doms) True
                  = Inr (b, doms')"
        by (simp add: set_remove_def)
      from Cons.IH [OF step] have b: "b" by simp
      from Cons.IH [OF step]
      have le: "store_size doms' \<le> store_size (AList.update x (removeAll word xs) doms)"
        by simp
      have "store_size (AList.update x (removeAll word xs) doms) < store_size doms"
        by (rule store_size_update_less [OF xs length_removeAll_less_mem [OF mem]])
      with le b show ?thesis by simp
    qed
  qed
qed

lemma revise_size:
  "revise cw x y doms = Inr (b, doms') \<Longrightarrow>
   (b \<longrightarrow> store_size doms' < store_size doms) \<and> (\<not> b \<longrightarrow> doms' = doms)"
  by (auto simp: revise_def split: sum.splits option.splits dest: revise_words_size)

text \<open>
  The worklist is a Python list: \<open>pop()\<close> takes its last element, \<open>append\<close> adds at the end.
  The loop returns False from inside, and None by falling off the end of the function.
\<close>

function ac3_loop ::
  "crossword \<Rightarrow> (variable \<times> variable) list \<Rightarrow> domains \<Rightarrow> error + (bool option \<times> domains)" where
  "ac3_loop cw arc_queue doms =
     (if length arc_queue \<noteq> 0 then
        (case revise cw (fst (last arc_queue)) (snd (last arc_queue)) doms of
           Inl e \<Rightarrow> Inl e
         | Inr (revise_result, doms') \<Rightarrow>
             (if revise_result then
                (case map_of doms' (fst (last arc_queue)) of
                   None \<Rightarrow> Inl KeyError
                 | Some xs \<Rightarrow>
                     (if length xs = 0 then Inr (Some False, doms')
                      else ac3_loop cw
                             (butlast arc_queue @
                              map (\<lambda>neigh. (fst (last arc_queue), neigh))
                                (neighbors cw (fst (last arc_queue))))
                             doms'))
              else ac3_loop cw (butlast arc_queue) doms'))
      else Inr (None, doms))"
  by pat_completeness auto
termination
proof (relation "measures [\<lambda>(cw, q, d). store_size d, \<lambda>(cw, q, d). length q]")
  show "wf (measures [\<lambda>(cw, q, d). store_size d, \<lambda>(cw, q, d :: domains). length (q :: (variable \<times> variable) list)])"
    by simp
next
  fix cw :: crossword and arc_queue :: "(variable \<times> variable) list" and doms doms' :: domains
    and x2 and revise_result :: bool and xs :: "string list"
  assume "length arc_queue \<noteq> 0"
    and r: "revise cw (fst (last arc_queue)) (snd (last arc_queue)) doms = Inr x2"
    and x2: "(revise_result, doms') = x2" and "revise_result"
  with revise_size [of cw _ _ doms revise_result doms']
  show "((cw, butlast arc_queue @ map (Pair (fst (last arc_queue))) (neighbors cw (fst (last arc_queue))), doms'),
         cw, arc_queue, doms) \<in> measures [\<lambda>(cw, q, d). store_size d, \<lambda>(cw, q, d). length q]"
    by auto
next
  fix cw :: crossword and arc_queue :: "(variable \<times> variable) list" and doms doms' :: domains
    and x2 and revise_result :: bool
  assume "length arc_queue \<noteq> 0"
    and r: "revise cw (fst (last arc_queue)) (snd (last arc_queue)) doms = Inr x2"
    and x2: "(revise_result, doms') = x2" and "\<not> revise_result"
  with revise_size [of cw _ _ doms revise_result doms']
  show "((cw, butlast arc_queue, doms'), cw, arc_queue, doms)
        \<in> measures [\<lambda>(cw, q, d). store_size d, \<lambda>(cw, q, d). length q]"
    by auto
qed

declare ac3_loop.simps [simp del]

text \<open>
  The default worklist: for every key \<open>x\<close> of the store, in order, the arcs to every other
  key. The keys of one dict are distinct objects, so \<open>x is not y\<close> is inequality.
\<close>

definition all_arcs :: "domains \<Rightarrow> (variable \<times> variable) list" where
  "all_arcs doms =
     concat (map (\<lambda>x. map (\<lambda>y. (x, y)) (filter (\<lambda>y. y \<noteq> x) (map fst doms))) (map fst doms))"

definition ac3 ::
  "crossword \<Rightarrow> (variable \<times> variable) list option \<Rightarrow> domains \<Rightarrow> error + (bool option \<times> domains)" where
  "ac3 cw arcs doms =
     (case arcs of
        None \<Rightarrow> ac3_loop cw (all_arcs doms) doms
      | Some arc_queue \<Rightarrow> ac3_loop cw arc_queue doms)"

subsection \<open>Assignments\<close>

fun assignment_complete_vars :: "variable list \<Rightarrow> assignment \<Rightarrow> bool" where
  "assignment_complete_vars [] a = True"
| "assignment_complete_vars (var # rest) a =
     (case map_of a var of
        Some word \<Rightarrow> (if word = [] then False else assignment_complete_vars rest a)
      | None \<Rightarrow> False)"

definition assignment_complete :: "crossword \<Rightarrow> assignment \<Rightarrow> bool" where
  "assignment_complete cw a = assignment_complete_vars (variables cw) a"

text \<open>
  The inner loop of \<open>consistent\<close>: \<open>Inr False\<close> is the \<open>return False\<close> of a clash,
  \<open>Inr True\<close> the end of the loop. A tuple of two indices is truthy, None is not.
\<close>

fun consistent_neighbors ::
  "crossword \<Rightarrow> assignment \<Rightarrow> variable \<Rightarrow> string \<Rightarrow> variable list \<Rightarrow> error + bool" where
  "consistent_neighbors cw a var word [] = Inr True"
| "consistent_neighbors cw a var word (neigh # rest) =
     (case map_of a neigh of
        None \<Rightarrow> consistent_neighbors cw a var word rest
      | Some neigh_word \<Rightarrow>
          (case overlaps_get cw var neigh of
             Inl e \<Rightarrow> Inl e
           | Inr None \<Rightarrow> consistent_neighbors cw a var word rest
           | Inr (Some ov) \<Rightarrow>
               (if snd ov < length neigh_word then
                  (if fst ov < length word then
                     (if neigh_word ! snd ov \<noteq> word ! fst ov then Inr False
                      else consistent_neighbors cw a var word rest)
                   else Inl IndexError)
                else Inl IndexError)))"

fun consistent_items ::
  "crossword \<Rightarrow> assignment \<Rightarrow> assignment \<Rightarrow> string list \<Rightarrow> error + bool" where
  "consistent_items cw a [] all_words = Inr True"
| "consistent_items cw a ((var, word) # rest) all_words =
     (if word \<in> set all_words then Inr False
      else if \<not> (var_length var = length word) then Inr False
      else
        (case consistent_neighbors cw a var word (neighbors cw var) of
           Inl e \<Rightarrow> Inl e
         | Inr ok \<Rightarrow>
             (if ok then consistent_items cw a rest (all_words @ [word]) else Inr False)))"

definition consistent :: "crossword \<Rightarrow> assignment \<Rightarrow> error + bool" where
  "consistent cw a = consistent_items cw a a []"

subsection \<open>Ordering heuristics\<close>

text \<open>\<open>len(list(filter(...)))\<close>: the filter indexes every word of the domain.\<close>

fun count_matching :: "nat \<Rightarrow> char \<Rightarrow> string list \<Rightarrow> error + nat" where
  "count_matching spot c [] = Inr 0"
| "count_matching spot c (word # rest) =
     (if spot < length word then
        (case count_matching spot c rest of
           Inl e \<Rightarrow> Inl e
         | Inr n \<Rightarrow> Inr (if word ! spot = c then Suc n else n))
      else Inl IndexError)"

definition overlap_count :: "domains \<Rightarrow> char \<Rightarrow> nat \<Rightarrow> variable \<Rightarrow> error + nat" where
  "overlap_count doms c spot var =
     (case map_of doms var of
        None \<Rightarrow> Inl KeyError
      | Some ws \<Rightarrow>
          (case count_matching spot c ws of
             Inl e \<Rightarrow> Inl e
           | Inr after_filter \<Rightarrow> Inr (length ws - after_filter)))"

text \<open>Subscripting None, the overlap of a pair that shares no cell, is a TypeError.\<close>

fun sort_function ::
  "crossword \<Rightarrow> domains \<Rightarrow> variable \<Rightarrow> variable list \<Rightarrow> string \<Rightarrow> nat \<Rightarrow> error + nat" where
  "sort_function cw doms var [] word total_removed = Inr total_removed"
| "sort_function cw doms var (neigh # rest) word total_removed =
     (case overlaps_get cw var neigh of
        Inl e \<Rightarrow> Inl e
      | Inr None \<Rightarrow> Inl TypeError
      | Inr (Some overlap) \<Rightarrow>
          (if fst overlap < length word then
             (case overlap_count doms (word ! fst overlap) (snd overlap) neigh of
                Inl e \<Rightarrow> Inl e
              | Inr n \<Rightarrow> sort_function cw doms var rest word (total_removed + n))
           else Inl IndexError))"

text \<open>\<open>sorted\<close> computes the key of every element, in order, and then sorts stably.\<close>

fun sort_keys ::
  "crossword \<Rightarrow> domains \<Rightarrow> variable \<Rightarrow> variable list \<Rightarrow> string list \<Rightarrow> error + nat list" where
  "sort_keys cw doms var nbrs [] = Inr []"
| "sort_keys cw doms var nbrs (word # rest) =
     (case sort_function cw doms var nbrs word 0 of
        Inl e \<Rightarrow> Inl e
      | Inr k \<Rightarrow>
          (case sort_keys cw doms var nbrs rest of
             Inl e \<Rightarrow> Inl e
           | Inr ks \<Rightarrow> Inr (k # ks)))"

definition sorted_by :: "nat list \<Rightarrow> string list \<Rightarrow> string list" where
  "sorted_by ks ws = map snd (sort_key fst (zip ks ws))"

definition order_domain_values ::
  "crossword \<Rightarrow> domains \<Rightarrow> variable \<Rightarrow> assignment \<Rightarrow> error + string list" where
  "order_domain_values cw doms var a =
     (if length (filter (\<lambda>v. v \<notin> set (map fst a)) (neighbors cw var)) = 0 then
        (case map_of doms var of None \<Rightarrow> Inl KeyError | Some ws \<Rightarrow> Inr ws)
      else
        (case map_of doms var of
           None \<Rightarrow> Inl KeyError
         | Some ws \<Rightarrow>
             (case sort_keys cw doms var
                     (filter (\<lambda>v. v \<notin> set (map fst a)) (neighbors cw var)) ws of
                Inl e \<Rightarrow> Inl e
              | Inr ks \<Rightarrow> Inr (sorted_by ks ws))))"

text \<open>
  \<open>min_remaining_values\<close> (the float 1e6) and \<open>current_highest_degree\<close> are local variables
  that the loop reads and never assigns.
\<close>

fun select_loop ::
  "crossword \<Rightarrow> assignment \<Rightarrow> domains \<Rightarrow> nat \<Rightarrow> nat \<Rightarrow> variable option \<Rightarrow> variable option" where
  "select_loop cw a [] min_remaining_values current_highest_degree current_var = current_var"
| "select_loop cw a ((var, ws) # rest) min_remaining_values current_highest_degree current_var =
     (if var \<notin> set (map fst a) then
        (if length ws < min_remaining_values \<or>
            (length ws = min_remaining_values \<and>
             length (neighbors cw var) > current_highest_degree)
         then select_loop cw a rest min_remaining_values current_highest_degree (Some var)
         else select_loop cw a rest min_remaining_values current_highest_degree current_var)
      else select_loop cw a rest min_remaining_values current_highest_degree current_var)"

definition select_unassigned_variable :: "crossword \<Rightarrow> domains \<Rightarrow> assignment \<Rightarrow> variable option" where
  "select_unassigned_variable cw doms a = select_loop cw a doms 1000000 0 None"

subsection \<open>Backtracking search\<close>

lemma keys_update: "set (map fst (AList.update v w a)) = insert v (set (map fst a))"
  by (simp add: update_keys insert_absorb)

lemma keys_delete: "set (map fst (AList.delete v a)) = set (map fst a) - {v}"
  by (simp add: delete_keys)

lemma card_pending_less:
  assumes "finite K"
  shows "card (K - insert v A) < card (insert v K - (A - {v}))"
proof (rule psubset_card_mono)
  show "finite (insert v K - (A - {v}))" using assms by simp
  show "K - insert v A \<subset> insert v K - (A - {v})" by blast
qed

lemma select_loop_Some:
  "select_loop cw a doms m h cur = Some v \<Longrightarrow>
   cur = Some v \<or> (v \<in> set (map fst doms) \<and> v \<notin> set (map fst a))"
proof (induction doms arbitrary: cur)
  case Nil
  then show ?case by simp
next
  case (Cons p doms)
  obtain var ws where p: "p = (var, ws)" by (cases p)
  let ?pick = "length ws < m \<or> (length ws = m \<and> length (neighbors cw var) > h)"
  show ?case
  proof (cases "var \<notin> set (map fst a)")
    case unassigned: True
    show ?thesis
    proof (cases ?pick)
      case True
      with Cons.prems p unassigned have "select_loop cw a doms m h (Some var) = Some v"
        by (simp del: set_map)
      from Cons.IH [OF this] unassigned p show ?thesis by auto
    next
      case False
      then have "select_loop cw a (p # doms) m h cur = select_loop cw a doms m h cur"
        unfolding p select_loop.simps using unassigned by auto
      with Cons.prems have "select_loop cw a doms m h cur = Some v" by simp
      from Cons.IH [OF this] show ?thesis by auto
    qed
  next
    case False
    then have "select_loop cw a (p # doms) m h cur = select_loop cw a doms m h cur"
      unfolding p select_loop.simps by simp
    with Cons.prems have "select_loop cw a doms m h cur = Some v" by simp
    from Cons.IH [OF this] show ?thesis by auto
  qed
qed

lemma select_unassigned_variable_Some:
  "select_unassigned_variable cw doms a = Some v \<Longrightarrow>
   v \<in> set (map fst doms) \<and> v \<notin> set (map fst a)"
  using select_loop_Some [of cw a doms 1000000 0 None v]
  by (simp add: select_unassigned_variable_def)

definition unassigned :: "domains \<Rightarrow> assignment \<Rightarrow> nat" where
  "unassigned doms a = card (set (map fst doms) - set (map fst a))"

definition pending :: "domains \<Rightarrow> variable \<Rightarrow> assignment \<Rightarrow> nat" where
  "pending doms v a = card (insert v (set (map fst doms)) - (set (map fst a) - {v}))"

lemma pending_unassigned:
  "v \<in> set (map fst doms) \<Longrightarrow> v \<notin> set (map fst a) \<Longrightarrow> pending doms v a = unassigned doms a"
  by (simp add: pending_def unassigned_def insert_absorb)

lemma unassigned_update_less: "unassigned doms (AList.update v w a) < pending doms v a"
  unfolding unassigned_def pending_def keys_update
  by (rule card_pending_less) simp

lemma pending_delete_update: "pending doms v (AList.delete v (AList.update v w a)) = pending doms v a"
  unfolding pending_def keys_delete keys_update by simp

text \<open>
  \<open>backtrack\<close> and the loop over the ordered words are mutually recursive. The dict
  \<open>assignment\<close> is shared by all levels of the recursion: a level that returns None has
  deleted every key it added, so after a failed call the dict holds again what the caller
  passed, and \<open>del assignment[new_var]\<close> then removes the caller's own key. When
  \<open>select_unassigned_variable\<close> returns None, \<open>neighbors(None)\<close> compares a variable with
  None and raises AttributeError. \<open>self.domains\<close> is only read.
\<close>

function backtrack :: "crossword \<Rightarrow> domains \<Rightarrow> assignment \<Rightarrow> error + assignment option"
  and backtrack_words ::
    "crossword \<Rightarrow> domains \<Rightarrow> variable \<Rightarrow> string list \<Rightarrow> assignment \<Rightarrow> error + assignment option" where
  "backtrack cw doms a =
     (if assignment_complete cw a then Inr (Some a)
      else
        (case select_unassigned_variable cw doms a of
           None \<Rightarrow> Inl AttributeError
         | Some new_var \<Rightarrow>
             (case order_domain_values cw doms new_var a of
                Inl e \<Rightarrow> Inl e
              | Inr ordered_word_list \<Rightarrow> backtrack_words cw doms new_var ordered_word_list a)))"
| "backtrack_words cw doms new_var [] a = Inr None"
| "backtrack_words cw doms new_var (word # rest) a =
     (case consistent cw (AList.update new_var word a) of
        Inl e \<Rightarrow> Inl e
      | Inr is_consistant \<Rightarrow>
          (if is_consistant then
             (case backtrack cw doms (AList.update new_var word a) of
                Inl e \<Rightarrow> Inl e
              | Inr None \<Rightarrow>
                  backtrack_words cw doms new_var rest
                    (AList.delete new_var (AList.update new_var word a))
              | Inr (Some result) \<Rightarrow>
                  (case consistent cw result of
                     Inl e \<Rightarrow> Inl e
                   | Inr still_consistent \<Rightarrow>
                       (if still_consistent then Inr (Some result)
                        else backtrack_words cw doms new_var rest
                               (AList.delete new_var (AList.update new_var word a)))))
           else backtrack_words cw doms new_var rest
                  (AList.delete new_var (AList.update new_var word a))))"
  by pat_completeness auto
termination
proof (relation "measures
     [\<lambda>x. case x of Inl (cw, doms, a) \<Rightarrow> unassigned doms a
                   | Inr (cw, doms, v, ws, a) \<Rightarrow> pending doms v a,
      \<lambda>x. case x of Inl _ \<Rightarrow> Suc 0 | Inr _ \<Rightarrow> 0,
      \<lambda>x. case x of Inl _ \<Rightarrow> 0 | Inr (cw, doms, v, ws, a) \<Rightarrow> length ws]", goal_cases)
  case 1
  show ?case by simp
next
  case (2 cw doms a x2 b)
  then show ?case
    by (simp add: pending_unassigned [OF conjunct1 [OF select_unassigned_variable_Some]
          conjunct2 [OF select_unassigned_variable_Some]])
next
  case (3 cw doms new_var word rest a b)
  show ?case by (simp add: unassigned_update_less)
next
  case (4 cw doms new_var word rest a b ba)
  show ?case by (simp add: pending_delete_update)
next
  case (5 cw doms new_var word rest a b ba x2 bb)
  show ?case by (simp add: pending_delete_update)
next
  case (6 cw doms new_var word rest a b)
  show ?case by (simp add: pending_delete_update)
qed

declare backtrack.simps [simp del]

text \<open>\<open>solve\<close> calls \<open>ac3\<close> as a statement: the value it returns is dropped.\<close>

definition solve :: "crossword \<Rightarrow> error + assignment option" where
  "solve cw =
     (case enforce_node_consistency cw (init cw) of
        Inl e \<Rightarrow> Inl e
      | Inr doms \<Rightarrow>
          (case ac3 cw None doms of
             Inl e \<Rightarrow> Inl e
           | Inr (ac3_result, doms') \<Rightarrow> backtrack cw doms' []))"

section \<open>Example grids\<close>

text \<open>
  A grid of three rows, the middle row open in its second column only: two slots across
  (top and bottom) and one slot down that crosses both.
\<close>

definition slot_top :: variable where
  "slot_top = \<lparr>var_i = 0, var_j = 0, var_direction = ACROSS, var_length = 3\<rparr>"
definition slot_down :: variable where
  "slot_down = \<lparr>var_i = 0, var_j = 1, var_direction = DOWN, var_length = 3\<rparr>"
definition slot_bottom :: variable where
  "slot_bottom = \<lparr>var_i = 2, var_j = 0, var_direction = ACROSS, var_length = 3\<rparr>"

definition grid_overlaps :: "variable \<times> variable \<Rightarrow> (nat \<times> nat) option" where
  "grid_overlaps p =
     (if p = (slot_top, slot_down) then Some (1, 0)
      else if p = (slot_down, slot_top) then Some (0, 1)
      else if p = (slot_bottom, slot_down) then Some (1, 2)
      else if p = (slot_down, slot_bottom) then Some (2, 1)
      else None)"

definition grid_neighbors :: "variable \<Rightarrow> variable list" where
  "grid_neighbors v =
     (if v = slot_top then [slot_down]
      else if v = slot_down then [slot_top, slot_bottom]
      else if v = slot_bottom then [slot_down]
      else [])"

definition grid3 :: crossword where
  "grid3 = \<lparr>variables = [slot_down, slot_top, slot_bottom],
            words = [''AAA'', ''EDF'', ''BCD'', ''AB''],
            overlaps = grid_overlaps, neighbors = grid_neighbors\<rparr>"

definition grid3_seeded :: domains where
  "grid3_seeded = [(slot_down, [''AAA'', ''EDF'', ''BCD'']),
                   (slot_top, [''AAA'', ''EDF'', ''BCD'']),
                   (slot_bottom, [''AAA'', ''EDF'', ''BCD''])]"

definition grid_clash :: crossword where
  "grid_clash = grid3\<lparr>words := [''ABC'', ''DEF'']\<rparr>"

definition clash_seeded :: domains where
  "clash_seeded = [(slot_down, [''ABC'', ''DEF'']), (slot_top, [''ABC'', ''DEF'']),
                   (slot_bottom, [''ABC'', ''DEF''])]"

definition clash_first :: domains where
  "clash_first = [(slot_down, [''ABC'', ''DEF'']), (slot_top, [''ABC'', ''DEF'']),
                  (slot_bottom, [])]"

definition clash_second :: domains where
  "clash_second = [(slot_down, [''ABC'', ''DEF'']), (slot_top, []), (slot_bottom, [])]"

definition grid3_first :: domains where
  "grid3_first = [(slot_down, [''AAA'']), (slot_top, [''AAA'']), (slot_bottom, [''AAA'', ''EDF''])]"

definition grid3_second :: domains where
  "grid3_second = [(slot_down, [''AAA'']), (slot_top, [''AAA'']), (slot_bottom, [''AAA''])]"

definition grid3_emptied :: domains where
  "grid3_emptied = [(slot_down, []), (slot_top, []), (slot_bottom, [])]"



text \<open>
  A corner: a slot of three cells across and a slot of four cells down that share their
  first cell.
\<close>

definition slot_across3 :: variable where
  "slot_across3 = \<lparr>var_i = 0, var_j = 0, var_direction = ACROSS, var_length = 3\<rparr>"

definition slot_down4 :: variable where
  "slot_down4 = \<lparr>var_i = 0, var_j = 0, var_direction = DOWN, var_length = 4\<rparr>"

definition corner :: crossword where
  "corner = \<lparr>variables = [slot_across3, slot_down4],
             words = [''CAT'', ''CODE'', ''COLD''],
             overlaps = (\<lambda>p. if p = (slot_across3, slot_down4) \<or> p = (slot_down4, slot_across3)
                              then Some (0, 0) else None),
             neighbors = (\<lambda>v. if v = slot_across3 then [slot_down4]
                              else if v = slot_down4 then [slot_across3] else [])\<rparr>"

definition corner_seeded :: domains where
  "corner_seeded = [(slot_across3, [''CAT'']), (slot_down4, [''CODE'', ''COLD''])]"

text \<open>The three-slot grid with words that fit no slot, and a grid without any slot.\<close>

definition grid_misfit :: crossword where
  "grid_misfit = grid3\<lparr>words := [''AB'', ''ABCD'']\<rparr>"

definition grid_blocked :: crossword where
  "grid_blocked = \<lparr>variables = [], words = [''AB'', ''ABCD''],
                    overlaps = (\<lambda>p. None), neighbors = (\<lambda>v. [])\<rparr>"

text \<open>The three-slot grid with words that fill it.\<close>

definition grid_fill :: crossword where
  "grid_fill = grid3\<lparr>words := [''AAA'', ''BAB'', ''ABA'', ''AB'']\<rparr>"


definition fill_seeded :: domains where
  "fill_seeded = [(slot_down, [''AAA'', ''BAB'', ''ABA'']), (slot_top, [''AAA'', ''BAB'', ''ABA'']),
                  (slot_bottom, [''AAA'', ''BAB'', ''ABA''])]"

definition fill_solution :: assignment where
  "fill_solution = [(slot_bottom, ''AAA''), (slot_top, ''BAB''), (slot_down, ''ABA'')]"

text \<open>
  Two assignments on that grid: one that repeats a word, and one that holds a word the
  dictionary does not have.
\<close>

definition fill_repeated :: assignment where
  "fill_repeated = [(slot_down, ''AAA''), (slot_top, ''AAA''), (slot_bottom, ''AAA'')]"

definition fill_foreign :: assignment where
  "fill_foreign = [(slot_top, ''ZAZ''), (slot_bottom, ''AAA''), (slot_down, ''ABA'')]"

lemmas corner_defs = corner_def corner_seeded_def slot_across3_def slot_down4_def

lemmas grid_defs = grid3_def grid3_seeded_def slot_top_def slot_down_def slot_bottom_def
  grid_overlaps_def grid_neighbors_def

lemmas run_defs = grid_defs grid_clash_def clash_seeded_def clash_first_def clash_second_def
  grid3_first_def grid3_second_def grid3_emptied_def
  ac3_def all_arcs_def revise_def overlaps_get_def set_remove_def ac3_loop.simps
  init_def enforce_node_consistency_def

section \<open>Stated properties\<close>

text \<open>
  \<open>shrinks before after\<close>: the store keeps its keys, in place, and the domain of every
  variable after the step is a subset of, and no longer than, its domain before.
\<close>

definition shrinks :: "domains \<Rightarrow> domains \<Rightarrow> bool" where
  "shrinks before after =
     list_all2 (\<lambda>p q. fst q = fst p \<and> set (snd q) \<subseteq> set (snd p) \<and> length (snd q) \<le> length (snd p))
       before after"

text \<open>
  What a run of the worklist loop can report: never True; False only when a domain that
  was not empty at the start is empty at the end; None only when no such domain exists.
\<close>

definition ac3_outcome :: "domains \<Rightarrow> bool option \<Rightarrow> domains \<Rightarrow> bool" where
  "ac3_outcome doms r doms' =
     (r \<noteq> Some True \<and>
      (r = Some False \<longrightarrow> (\<exists>x xs. map_of doms x = Some xs \<and> xs \<noteq> [] \<and> map_of doms' x = Some [])) \<and>
      (r = None \<longrightarrow> (\<forall>x xs. map_of doms x = Some xs \<and> xs \<noteq> [] \<longrightarrow> map_of doms' x \<noteq> Some [])))"

text \<open>
  Arc consistency of a store: for every ordered pair of distinct keys whose overlap is
  \<open>(kx, ky)\<close>, every word of the first domain has a word of the second that agrees with
  it at these indices.
\<close>

definition domain_of :: "domains \<Rightarrow> variable \<Rightarrow> string list" where
  "domain_of doms v = (case map_of doms v of None \<Rightarrow> [] | Some ws \<Rightarrow> ws)"

definition arc_consistent :: "crossword \<Rightarrow> domains \<Rightarrow> bool" where
  "arc_consistent cw doms =
     (\<forall>x\<in>set (map fst doms). \<forall>y\<in>set (map fst doms). x \<noteq> y \<longrightarrow>
        (case overlaps cw (x, y) of
           None \<Rightarrow> True
         | Some (kx, ky) \<Rightarrow>
             (\<forall>w\<in>set (domain_of doms x). \<exists>w'\<in>set (domain_of doms y).
                kx < length w \<and> ky < length w' \<and> w ! kx = w' ! ky)))"

text \<open>
  Side conditions on a store and a grid: every word has the length of its variable; the
  indices of an overlap lie within the two slots; every domain is a set.
\<close>

definition node_consistent :: "domains \<Rightarrow> bool" where
  "node_consistent doms = (\<forall>p\<in>set doms. \<forall>w\<in>set (snd p). length w = var_length (fst p))"

definition overlaps_in_range :: "crossword \<Rightarrow> bool" where
  "overlaps_in_range cw =
     (\<forall>x\<in>set (variables cw). \<forall>y\<in>set (variables cw).
        (case overlaps cw (x, y) of
           None \<Rightarrow> True
         | Some (kx, ky) \<Rightarrow> kx < var_length x \<and> ky < var_length y))"

definition sets_of_words :: "domains \<Rightarrow> bool" where
  "sets_of_words doms = (\<forall>p\<in>set doms. distinct (snd p))"

text \<open>
  The number of words that choosing \<open>word\<close> for \<open>var\<close> eliminates from the domain of one
  neighbor (the words that differ from it at the overlap), and the total over the neighbors
  of \<open>var\<close> that have no entry in the assignment.
\<close>

definition eliminated_from :: "crossword \<Rightarrow> domains \<Rightarrow> variable \<Rightarrow> string \<Rightarrow> variable \<Rightarrow> nat" where
  "eliminated_from cw doms var word neigh =
     (case overlaps cw (var, neigh) of
        None \<Rightarrow> 0
      | Some (kx, ky) \<Rightarrow> length (filter (\<lambda>w'. w' ! ky \<noteq> word ! kx) (domain_of doms neigh)))"

definition eliminated :: "crossword \<Rightarrow> domains \<Rightarrow> assignment \<Rightarrow> variable \<Rightarrow> string \<Rightarrow> nat" where
  "eliminated cw doms a var word =
     sum_list (map (eliminated_from cw doms var word)
       (filter (\<lambda>v. v \<notin> set (map fst a)) (neighbors cw var)))"

definition neighbors_overlap :: "crossword \<Rightarrow> bool" where
  "neighbors_overlap cw =
     (\<forall>x\<in>set (variables cw). \<forall>n\<in>set (neighbors cw x).
        n \<in> set (variables cw) \<and> n \<noteq> x \<and> overlaps cw (x, n) \<noteq> None)"

text \<open>
  \<open>can_count\<close>: every subscript that the key of \<open>word\<close> evaluates for the neighbor \<open>n\<close>
  exists.
\<close>

definition can_count :: "crossword \<Rightarrow> domains \<Rightarrow> variable \<Rightarrow> string \<Rightarrow> variable \<Rightarrow> bool" where
  "can_count cw doms var word n =
     (\<exists>kx ky ns. overlaps_get cw var n = Inr (Some (kx, ky)) \<and> kx < length word \<and>
        map_of doms n = Some ns \<and> (\<forall>w'\<in>set ns. ky < length w'))"

text \<open>All the words that occur in some domain of the store.\<close>

definition store_words :: "domains \<Rightarrow> string set" where
  "store_words doms = (\<Union>p\<in>set doms. set (snd p))"

section \<open>Node consistency\<close>

lemma map_of_update_same: "map_of (AList.update x v doms) x = Some v"
  by (simp add: update_conv')

lemma map_of_update_other: "z \<noteq> x \<Longrightarrow> map_of (AList.update x v doms) z = map_of doms z"
  by (simp add: update_conv')

lemma filter_removeAll_step:
  assumes "\<not> P word" "word \<notin> set rest"
  shows "filter (\<lambda>w. w \<notin> set rest \<or> P w) (removeAll word cur)
         = filter (\<lambda>w. w \<notin> set (word # rest) \<or> P w) cur"
  using assms by (induction cur) auto

lemma filter_keep_step:
  assumes "P word"
  shows "filter (\<lambda>w. w \<notin> set rest \<or> P w) cur
         = filter (\<lambda>w. w \<notin> set (word # rest) \<or> P w) cur"
  using assms by (induction cur) auto

lemma filter_all_visited: "filter (\<lambda>w. w \<notin> set xs \<or> P w) xs = filter P xs"
  by (rule filter_cong) auto

lemma enforce_words_spec:
  assumes "map_of doms var = Some cur" and "distinct ws" and "set ws \<subseteq> set cur"
  shows "enforce_words var ws doms =
           Inr (AList.update var
                  (filter (\<lambda>w. w \<notin> set ws \<or> length w = var_length var) cur) doms)"
  using assms
proof (induction ws arbitrary: doms cur)
  case Nil
  then show ?case by (simp add: update_triv)
next
  case (Cons word rest)
  let ?fits = "\<lambda>w. length w = var_length var"
  show ?case
  proof (cases "?fits word")
    case True
    have "enforce_words var (word # rest) doms = enforce_words var rest doms"
      using True by simp
    also have "\<dots> = Inr (AList.update var (filter (\<lambda>w. w \<notin> set rest \<or> ?fits w) cur) doms)"
      using Cons.prems by (intro Cons.IH) auto
    also have "filter (\<lambda>w. w \<notin> set rest \<or> ?fits w) cur
               = filter (\<lambda>w. w \<notin> set (word # rest) \<or> ?fits w) cur"
      using True by (rule filter_keep_step)
    finally show ?thesis .
  next
    case False
    have mem: "word \<in> set cur" using Cons.prems by simp
    have notin: "word \<notin> set rest" using Cons.prems by simp
    let ?doms1 = "AList.update var (removeAll word cur) doms"
    have "enforce_words var (word # rest) doms = enforce_words var rest ?doms1"
      using False Cons.prems(1) mem by (simp add: set_remove_def)
    also have "\<dots> = Inr (AList.update var
                 (filter (\<lambda>w. w \<notin> set rest \<or> ?fits w) (removeAll word cur)) ?doms1)"
    proof (intro Cons.IH)
      show "map_of ?doms1 var = Some (removeAll word cur)" by (rule map_of_update_same)
      show "distinct rest" using Cons.prems by simp
      show "set rest \<subseteq> set (removeAll word cur)" using Cons.prems notin by auto
    qed
    also have "filter (\<lambda>w. w \<notin> set rest \<or> ?fits w) (removeAll word cur)
               = filter (\<lambda>w. w \<notin> set (word # rest) \<or> ?fits w) cur"
      using False notin by (rule filter_removeAll_step)
    finally show ?thesis by simp
  qed
qed

lemma keys_update_present:
  "map_of doms x = Some xs \<Longrightarrow> map fst (AList.update x xs' doms) = map fst doms"
  by (simp add: update_keys map_of_eq_None_iff [symmetric] del: map_of_eq_None_iff)

lemma enforce_vars_spec:
  assumes "distinct vs" and "distinct (words cw)"
    and "\<forall>v\<in>set vs. map_of doms v = Some (words cw)"
  shows "\<exists>doms'. enforce_vars cw vs doms = Inr doms' \<and> map fst doms' = map fst doms \<and>
           (\<forall>v. map_of doms' v =
              (if v \<in> set vs then Some (filter (\<lambda>w. length w = var_length v) (words cw))
               else map_of doms v))"
  using assms
proof (induction vs arbitrary: doms)
  case Nil
  then show ?case by simp
next
  case (Cons var rest)
  let ?kept = "filter (\<lambda>w. length w = var_length var) (words cw)"
  let ?doms1 = "AList.update var ?kept doms"
  have here: "map_of doms var = Some (words cw)" using Cons.prems by simp
  have step: "enforce_words var (words cw) doms = Inr ?doms1"
    using enforce_words_spec [OF here Cons.prems(2) subset_refl]
    by (simp only: filter_all_visited)
  have "\<forall>v\<in>set rest. map_of ?doms1 v = Some (words cw)"
  proof
    fix v assume v: "v \<in> set rest"
    then have "v \<noteq> var" using Cons.prems(1) by auto
    then show "map_of ?doms1 v = Some (words cw)"
      using v Cons.prems(3) by (simp add: map_of_update_other)
  qed
  with Cons.prems obtain doms' where
    run: "enforce_vars cw rest ?doms1 = Inr doms'" and
    keys: "map fst doms' = map fst ?doms1" and
    vals: "\<forall>v. map_of doms' v =
              (if v \<in> set rest then Some (filter (\<lambda>w. length w = var_length v) (words cw))
               else map_of ?doms1 v)"
    using Cons.IH [of ?doms1] by auto
  have "enforce_vars cw (var # rest) doms = Inr doms'" using step run by simp
  moreover have "map fst doms' = map fst doms"
    using keys keys_update_present [OF here] by simp
  moreover have "\<forall>v. map_of doms' v =
              (if v \<in> set (var # rest) then Some (filter (\<lambda>w. length w = var_length v) (words cw))
               else map_of doms v)"
  proof
    fix v
    show "map_of doms' v =
              (if v \<in> set (var # rest) then Some (filter (\<lambda>w. length w = var_length v) (words cw))
               else map_of doms v)"
    proof (cases "v = var")
      case True
      then have "v \<notin> set rest" using Cons.prems(1) by simp
      with vals True show ?thesis by (simp add: map_of_update_same)
    next
      case False
      with vals show ?thesis by (simp add: map_of_update_other)
    qed
  qed
  ultimately show ?case by blast
qed

lemma map_of_init:
  "v \<in> set (variables cw) \<Longrightarrow> map_of (init cw) v = Some (words cw)"
  unfolding init_def by (induction "variables cw") (auto simp: map_of_map_restrict)

lemma keys_init: "map fst (init cw) = variables cw"
  by (simp add: init_def comp_def)

lemma enforce_node_consistency_init:
  assumes "distinct (variables cw)" and "distinct (words cw)"
  shows "\<exists>doms'. enforce_node_consistency cw (init cw) = Inr doms' \<and>
           map fst doms' = variables cw \<and>
           (\<forall>v\<in>set (variables cw).
              map_of doms' v = Some (filter (\<lambda>w. length w = var_length v) (words cw)))"
  using enforce_vars_spec [OF assms, of "init cw"]
  by (auto simp: enforce_node_consistency_def map_of_init keys_init)

text \<open>
  C6. On freshly seeded domains \<open>enforce_node_consistency\<close> returns normally, keeps the
  keys of the store, and leaves in the domain of every variable exactly the words of the
  dictionary whose length is the variable's length: every remaining word has that length,
  and no word of that length is removed.
\<close>

theorem enforce_node_consistency_fresh:
  assumes "distinct (variables cw)" and "distinct (words cw)"
  shows "\<exists>doms'. enforce_node_consistency cw (init cw) = Inr doms' \<and>
           map fst doms' = variables cw \<and>
           (\<forall>v\<in>set (variables cw).
              map_of doms' v = Some (filter (\<lambda>w. length w = var_length v) (words cw)))"
  by (rule enforce_node_consistency_init [OF assms])

theorem enforce_node_consistency_fresh_witness:
  "distinct (variables grid3) \<and> distinct (words grid3) \<and>
   enforce_node_consistency grid3 (init grid3) = Inr grid3_seeded \<and>
   map_of grid3_seeded slot_top = Some [''AAA'', ''EDF'', ''BCD'']"
  using enforce_node_consistency_fresh [of grid3]
  by (simp add: grid_defs init_def enforce_node_consistency_def set_remove_def)

section \<open>Revising one arc\<close>

lemma any_match_in_range:
  "\<forall>w\<in>set ys. k < length w \<Longrightarrow> any_match k c ys = Inr (\<exists>w\<in>set ys. w ! k = c)"
  by (induction ys) auto

lemma revise_words_spec:
  assumes "x \<noteq> y" and "map_of doms y = Some ys" and "map_of doms x = Some cur"
    and "distinct ws" and "set ws \<subseteq> set cur"
    and "\<forall>w\<in>set ws. kx < length w" and "\<forall>w\<in>set ys. ky < length w"
  shows "revise_words x y (kx, ky) ws doms rm =
           Inr (rm \<or> (\<exists>w\<in>set ws. \<not> (\<exists>w'\<in>set ys. w' ! ky = w ! kx)),
                AList.update x
                  (filter (\<lambda>w. w \<notin> set ws \<or> (\<exists>w'\<in>set ys. w' ! ky = w ! kx)) cur) doms)"
  using assms
proof (induction ws arbitrary: doms cur rm)
  case Nil
  then show ?case by (simp add: update_triv)
next
  case (Cons word rest)
  let ?sup = "\<lambda>w. \<exists>w'\<in>set ys. w' ! ky = w ! kx"
  have inrange: "kx < length word" using Cons.prems by simp
  have am: "any_match ky (word ! kx) ys = Inr (?sup word)"
    using any_match_in_range [of ys ky "word ! kx"] Cons.prems by simp
  show ?case
  proof (cases "?sup word")
    case True
    have "revise_words x y (kx, ky) (word # rest) doms rm = revise_words x y (kx, ky) rest doms rm"
      using inrange am True Cons.prems(2) by simp
    also have "\<dots> = Inr (rm \<or> (\<exists>w\<in>set rest. \<not> ?sup w),
                AList.update x (filter (\<lambda>w. w \<notin> set rest \<or> ?sup w) cur) doms)"
      using Cons.prems by (intro Cons.IH) auto
    also have "(rm \<or> (\<exists>w\<in>set rest. \<not> ?sup w)) = (rm \<or> (\<exists>w\<in>set (word # rest). \<not> ?sup w))"
      using True by auto
    also have "filter (\<lambda>w. w \<notin> set rest \<or> ?sup w) cur
               = filter (\<lambda>w. w \<notin> set (word # rest) \<or> ?sup w) cur"
      using True by (rule filter_keep_step)
    finally show ?thesis .
  next
    case False
    have mem: "word \<in> set cur" using Cons.prems by simp
    have notin: "word \<notin> set rest" using Cons.prems by simp
    let ?doms1 = "AList.update x (removeAll word cur) doms"
    have "revise_words x y (kx, ky) (word # rest) doms rm
          = revise_words x y (kx, ky) rest ?doms1 True"
      using inrange am False Cons.prems(2,3) mem by (simp add: set_remove_def)
    also have "\<dots> = Inr (True \<or> (\<exists>w\<in>set rest. \<not> ?sup w),
                AList.update x (filter (\<lambda>w. w \<notin> set rest \<or> ?sup w) (removeAll word cur)) ?doms1)"
    proof (intro Cons.IH)
      show "x \<noteq> y" by fact
      show "map_of ?doms1 y = Some ys"
        using Cons.prems(1,2) by (simp add: map_of_update_other)
      show "map_of ?doms1 x = Some (removeAll word cur)" by (rule map_of_update_same)
      show "distinct rest" using Cons.prems by simp
      show "set rest \<subseteq> set (removeAll word cur)" using Cons.prems notin by auto
      show "\<forall>w\<in>set rest. kx < length w" using Cons.prems by simp
      show "\<forall>w\<in>set ys. ky < length w" by fact
    qed
    also have "filter (\<lambda>w. w \<notin> set rest \<or> ?sup w) (removeAll word cur)
               = filter (\<lambda>w. w \<notin> set (word # rest) \<or> ?sup w) cur"
      using False notin by (rule filter_removeAll_step)
    also have "(True \<or> (\<exists>w\<in>set rest. \<not> ?sup w)) = (rm \<or> (\<exists>w\<in>set (word # rest). \<not> ?sup w))"
      using False by auto
    finally show ?thesis by simp
  qed
qed

lemma revise_overlap:
  assumes "x \<noteq> y" and "x \<in> set (variables cw)" and "y \<in> set (variables cw)"
    and "map_of doms x = Some xs" and "map_of doms y = Some ys" and "distinct xs"
    and "overlaps cw (x, y) = Some (kx, ky)"
    and "\<forall>w\<in>set xs. kx < length w" and "\<forall>w\<in>set ys. ky < length w"
  shows "revise cw x y doms =
           Inr (filter (\<lambda>w. \<exists>w'\<in>set ys. w ! kx = w' ! ky) xs \<noteq> xs,
                AList.update x (filter (\<lambda>w. \<exists>w'\<in>set ys. w ! kx = w' ! ky) xs) doms)"
proof -
  let ?sup = "\<lambda>w. \<exists>w'\<in>set ys. w' ! ky = w ! kx"
  have same: "(\<lambda>w. \<exists>w'\<in>set ys. w ! kx = w' ! ky) = ?sup" by (metis (no_types))
  have "revise cw x y doms = revise_words x y (kx, ky) xs doms False"
    using assms(1-4,7) by (simp add: revise_def overlaps_get_def)
  also have "\<dots> = Inr (False \<or> (\<exists>w\<in>set xs. \<not> ?sup w),
                AList.update x (filter (\<lambda>w. w \<notin> set xs \<or> ?sup w) xs) doms)"
    using assms by (intro revise_words_spec) auto
  also have "filter (\<lambda>w. w \<notin> set xs \<or> ?sup w) xs = filter ?sup xs"
    by (rule filter_all_visited)
  also have "(False \<or> (\<exists>w\<in>set xs. \<not> ?sup w)) = (filter ?sup xs \<noteq> xs)"
    by (simp add: filter_id_conv)
  finally show ?thesis unfolding same .
qed

lemma revise_no_overlap:
  assumes "x \<noteq> y" and "x \<in> set (variables cw)" and "y \<in> set (variables cw)"
    and "overlaps cw (x, y) = None"
  shows "revise cw x y doms = Inr (False, doms)"
  using assms by (simp add: revise_def overlaps_get_def)

text \<open>
  C5. For distinct variables \<open>x\<close> and \<open>y\<close> of the grid with domains \<open>xs\<close> and \<open>ys\<close>: when
  the pair has no overlap, \<open>revise\<close> returns False and the store is unchanged; when the
  overlap is \<open>(kx, ky)\<close> and the indexed characters exist, \<open>revise\<close> leaves in \<open>x\<close>'s
  domain exactly the words \<open>w\<close> that have a word \<open>w'\<close> in \<open>y\<close>'s domain with
  \<open>w[kx] = w'[ky]\<close>, changes no other entry of the store (so \<open>y\<close>'s domain stays), and
  returns True exactly when a word was removed.
\<close>

theorem revise_spec:
  assumes "x \<noteq> y" and "x \<in> set (variables cw)" and "y \<in> set (variables cw)"
    and "map_of doms x = Some xs" and "map_of doms y = Some ys" and "distinct xs"
  shows "(overlaps cw (x, y) = None \<longrightarrow> revise cw x y doms = Inr (False, doms)) \<and>
         (\<forall>kx ky. overlaps cw (x, y) = Some (kx, ky) \<and>
                   (\<forall>w\<in>set xs. kx < length w) \<and> (\<forall>w\<in>set ys. ky < length w) \<longrightarrow>
            (\<exists>xs' doms'.
               xs' = filter (\<lambda>w. \<exists>w'\<in>set ys. w ! kx = w' ! ky) xs \<and>
               revise cw x y doms = Inr (xs' \<noteq> xs, doms') \<and>
               doms' = AList.update x xs' doms \<and>
               map_of doms' x = Some xs' \<and> map_of doms' y = Some ys))"
proof (intro conjI allI impI)
  assume "overlaps cw (x, y) = None"
  then show "revise cw x y doms = Inr (False, doms)"
    using assms(1-3) by (intro revise_no_overlap)
next
  fix kx ky
  assume h: "overlaps cw (x, y) = Some (kx, ky) \<and>
             (\<forall>w\<in>set xs. kx < length w) \<and> (\<forall>w\<in>set ys. ky < length w)"
  let ?xs' = "filter (\<lambda>w. \<exists>w'\<in>set ys. w ! kx = w' ! ky) xs"
  have "revise cw x y doms = Inr (?xs' \<noteq> xs, AList.update x ?xs' doms)"
    using assms h by (intro revise_overlap) auto
  moreover have "map_of (AList.update x ?xs' doms) x = Some ?xs'"
    by (rule map_of_update_same)
  moreover have "map_of (AList.update x ?xs' doms) y = Some ys"
    using assms(1,5) by (simp add: map_of_update_other)
  ultimately show "\<exists>xs' doms'.
               xs' = ?xs' \<and>
               revise cw x y doms = Inr (xs' \<noteq> xs, doms') \<and>
               doms' = AList.update x xs' doms \<and>
               map_of doms' x = Some xs' \<and> map_of doms' y = Some ys"
    by blast
qed

theorem revise_spec_witness:
  "slot_bottom \<noteq> slot_down \<and> overlaps grid3 (slot_bottom, slot_down) = Some (1, 2) \<and>
   map_of grid3_seeded slot_bottom = Some [''AAA'', ''EDF'', ''BCD''] \<and>
   map_of grid3_seeded slot_down = Some [''AAA'', ''EDF'', ''BCD''] \<and>
   revise grid3 slot_bottom slot_down grid3_seeded
     = Inr (True, AList.update slot_bottom [''AAA'', ''EDF''] grid3_seeded) \<and>
   overlaps grid3 (slot_top, slot_bottom) = None \<and>
   revise grid3 slot_top slot_bottom grid3_seeded = Inr (False, grid3_seeded)"
proof -
  have a: "slot_bottom \<noteq> slot_down" "slot_bottom \<in> set (variables grid3)"
    "slot_down \<in> set (variables grid3)"
    "map_of grid3_seeded slot_bottom = Some [''AAA'', ''EDF'', ''BCD'']"
    "map_of grid3_seeded slot_down = Some [''AAA'', ''EDF'', ''BCD'']"
    "distinct [''AAA'', ''EDF'', ''BCD'']"
    by (simp_all add: grid_defs)
  have b: "slot_top \<noteq> slot_bottom" "slot_top \<in> set (variables grid3)"
    "slot_bottom \<in> set (variables grid3)"
    "map_of grid3_seeded slot_top = Some [''AAA'', ''EDF'', ''BCD'']"
    by (simp_all add: grid_defs)
  have ov: "overlaps grid3 (slot_bottom, slot_down) = Some (1, 2)"
    "overlaps grid3 (slot_top, slot_bottom) = None"
    by (simp_all add: grid_defs)
  from revise_spec [OF a] ov(1)
  have "revise grid3 slot_bottom slot_down grid3_seeded
     = Inr (True, AList.update slot_bottom [''AAA'', ''EDF''] grid3_seeded)"
    by simp
  moreover from revise_spec [OF b a(4) a(6)] ov(2)
  have "revise grid3 slot_top slot_bottom grid3_seeded = Inr (False, grid3_seeded)"
    by simp
  ultimately show ?thesis using a ov by simp
qed

section \<open>Domains only shrink\<close>

lemma shrinks_refl: "shrinks doms doms"
  by (simp add: shrinks_def list_all2_refl)

lemma shrinks_trans:
  assumes "shrinks a b" and "shrinks b c"
  shows "shrinks a c"
  unfolding shrinks_def
  by (rule list_all2_trans [OF _ assms(1) [unfolded shrinks_def] assms(2) [unfolded shrinks_def]])
    auto

lemma shrinks_update:
  "map_of doms x = Some xs \<Longrightarrow> set xs' \<subseteq> set xs \<Longrightarrow> length xs' \<le> length xs \<Longrightarrow>
   shrinks doms (AList.update x xs' doms)"
proof (induction doms)
  case Nil
  then show ?case by simp
next
  case (Cons p doms)
  show ?case
  proof (cases "fst p = x")
    case True
    with Cons.prems show ?thesis
      by (cases p) (auto simp: shrinks_def list_all2_refl)
  next
    case False
    with Cons.prems have "shrinks doms (AList.update x xs' doms)"
      by (cases p) (auto intro: Cons.IH)
    with False show ?thesis by (cases p) (auto simp: shrinks_def)
  qed
qed

lemma set_remove_shrinks:
  "set_remove w ws = Inr ws' \<Longrightarrow> set ws' \<subseteq> set ws \<and> length ws' \<le> length ws"
  by (auto simp: set_remove_def split: if_splits)

lemma enforce_words_shrinks:
  "enforce_words var ws doms = Inr doms' \<Longrightarrow> shrinks doms doms'"
proof (induction ws arbitrary: doms)
  case Nil
  then show ?case by (simp add: shrinks_refl)
next
  case (Cons word rest)
  show ?case
  proof (cases "length word \<noteq> var_length var")
    case False
    with Cons show ?thesis by simp
  next
    case True
    with Cons.prems obtain cur cur' where cur: "map_of doms var = Some cur"
      and rem: "set_remove word cur = Inr cur'"
      and run: "enforce_words var rest (AList.update var cur' doms) = Inr doms'"
      by (auto split: option.splits sum.splits)
    from shrinks_update [OF cur] set_remove_shrinks [OF rem]
    have "shrinks doms (AList.update var cur' doms)" by simp
    with Cons.IH [OF run] show ?thesis by (blast intro: shrinks_trans)
  qed
qed

lemma enforce_vars_shrinks:
  "enforce_vars cw vs doms = Inr doms' \<Longrightarrow> shrinks doms doms'"
proof (induction vs arbitrary: doms)
  case Nil
  then show ?case by (simp add: shrinks_refl)
next
  case (Cons var rest)
  from Cons.prems obtain doms1 where one: "enforce_words var (words cw) doms = Inr doms1"
    and run: "enforce_vars cw rest doms1 = Inr doms'"
    by (auto split: sum.splits)
  from enforce_words_shrinks [OF one] Cons.IH [OF run] show ?case
    by (rule shrinks_trans)
qed

lemma revise_words_shrinks:
  "revise_words x y ov ws doms rm = Inr (b, doms') \<Longrightarrow> shrinks doms doms'"
proof (induction ws arbitrary: doms rm)
  case Nil
  then show ?case by (simp add: shrinks_refl)
next
  case (Cons word rest)
  from Cons.prems have inrange: "fst ov < length word"
    by (auto split: if_splits)
  from Cons.prems inrange obtain ys where ys: "map_of doms y = Some ys"
    by (auto split: option.splits)
  from Cons.prems inrange ys obtain possible where
    possible: "any_match (snd ov) (word ! fst ov) ys = Inr possible"
    by (auto split: sum.splits)
  show ?case
  proof (cases possible)
    case True
    with Cons.prems inrange ys possible
    have "revise_words x y ov rest doms rm = Inr (b, doms')" by simp
    from Cons.IH [OF this] show ?thesis .
  next
    case False
    with Cons.prems inrange ys possible obtain cur cur' where cur: "map_of doms x = Some cur"
      and rem: "set_remove word cur = Inr cur'"
      and run: "revise_words x y ov rest (AList.update x cur' doms) True = Inr (b, doms')"
      by (auto split: option.splits sum.splits)
    from shrinks_update [OF cur] set_remove_shrinks [OF rem]
    have "shrinks doms (AList.update x cur' doms)" by simp
    with Cons.IH [OF run] show ?thesis by (blast intro: shrinks_trans)
  qed
qed

lemma revise_shrinks: "revise cw x y doms = Inr (b, doms') \<Longrightarrow> shrinks doms doms'"
  by (auto simp: revise_def shrinks_refl split: sum.splits option.splits
      dest: revise_words_shrinks)

section \<open>The worklist loop\<close>

lemma shrinks_keys: "shrinks a b \<Longrightarrow> map fst b = map fst a"
  unfolding shrinks_def by (induction a b rule: list_all2_induct) auto

lemma shrinks_map_of:
  "shrinks a b \<Longrightarrow> map_of a x = Some xs \<Longrightarrow>
   \<exists>xs'. map_of b x = Some xs' \<and> set xs' \<subseteq> set xs \<and> length xs' \<le> length xs"
  unfolding shrinks_def
  by (induction a b rule: list_all2_induct) (auto split: if_splits)

lemma shrinks_map_of_rev:
  "shrinks a b \<Longrightarrow> map_of b x = Some xs' \<Longrightarrow>
   \<exists>xs. map_of a x = Some xs \<and> set xs' \<subseteq> set xs \<and> length xs' \<le> length xs"
  unfolding shrinks_def
  by (induction a b rule: list_all2_induct) (auto split: if_splits)

lemma ac3_loop_empty: "ac3_loop cw [] doms = Inr (None, doms)"
  by (simp add: ac3_loop.simps)

lemma ac3_loop_snoc:
  "ac3_loop cw (q @ [(x, y)]) doms =
     (case revise cw x y doms of
        Inl e \<Rightarrow> Inl e
      | Inr (revise_result, doms') \<Rightarrow>
          (if revise_result then
             (case map_of doms' x of
                None \<Rightarrow> Inl KeyError
              | Some xs \<Rightarrow>
                  (if length xs = 0 then Inr (Some False, doms')
                   else ac3_loop cw (q @ map (\<lambda>neigh. (x, neigh)) (neighbors cw x)) doms'))
           else ac3_loop cw q doms'))"
  by (subst ac3_loop.simps) (simp split: sum.splits prod.splits option.splits)

text \<open>An invariant rule for the worklist loop, by induction along its own recursion.\<close>

lemma ac3_loop_rule:
  assumes run: "ac3_loop cw q doms = Inr (r, doms')"
    and stop: "\<And>d. P d None d"
    and fail: "\<And>d x y d1. revise cw x y d = Inr (True, d1) \<Longrightarrow> map_of d1 x = Some []
                 \<Longrightarrow> P d (Some False) d1"
    and step: "\<And>d x y b d1 r d2. revise cw x y d = Inr (b, d1) \<Longrightarrow>
                 (b \<longrightarrow> (\<exists>xs. map_of d1 x = Some xs \<and> xs \<noteq> [])) \<Longrightarrow>
                 P d1 r d2 \<Longrightarrow> P d r d2"
  shows "P doms r doms'"
  using assms
proof (induction cw q doms rule: ac3_loop.induct)
  case (1 cw arc_queue doms)
  note stop = "1.prems"(2) and fail = "1.prems"(3) and step = "1.prems"(4)
  show ?case
  proof (cases "arc_queue = []")
    case True
    with "1.prems" have "r = None" "doms' = doms" by (simp_all add: ac3_loop_empty)
    with stop show ?thesis by simp
  next
    case False
    then have nonempty: "length arc_queue \<noteq> 0" by simp
    obtain x y where arc: "last arc_queue = (x, y)" by (cases "last arc_queue")
    from False arc have q: "arc_queue = butlast arc_queue @ [(x, y)]"
      by (metis append_butlast_last_id)
    from "1.prems" have run': "ac3_loop cw (butlast arc_queue @ [(x, y)]) doms = Inr (r, doms')"
      using q by simp
    from run' obtain b d1 where rv: "revise cw x y doms = Inr (b, d1)"
      unfolding ac3_loop_snoc by (auto split: sum.splits)
    have rv': "revise cw (fst (last arc_queue)) (snd (last arc_queue)) doms = Inr (b, d1)"
      using rv arc by simp
    show ?thesis
    proof (cases b)
      case False
      with run' rv have "ac3_loop cw (butlast arc_queue) d1 = Inr (r, doms')"
        unfolding ac3_loop_snoc by simp
      then have "P d1 r doms'"
      proof (rule "1.IH"(2) [OF nonempty rv' refl False])
        show "\<And>d. P d None d" by (rule stop)
        show "\<And>d x y d1. revise cw x y d = Inr (True, d1) \<Longrightarrow> map_of d1 x = Some []
                 \<Longrightarrow> P d (Some False) d1" by (rule fail)
        show "\<And>d x y b d1 r d2. revise cw x y d = Inr (b, d1) \<Longrightarrow>
                 (b \<longrightarrow> (\<exists>xs. map_of d1 x = Some xs \<and> xs \<noteq> [])) \<Longrightarrow>
                 P d1 r d2 \<Longrightarrow> P d r d2" by (rule step)
      qed
      with rv False show ?thesis by (intro step [of x y doms b d1]) auto
    next
      case True
      with run' rv obtain xs where xs: "map_of d1 x = Some xs"
        unfolding ac3_loop_snoc by (auto split: option.splits)
      show ?thesis
      proof (cases "length xs = 0")
        case True
        with run' rv \<open>b\<close> xs have "r = Some False" "doms' = d1"
          unfolding ac3_loop_snoc by simp_all
        with fail [of x y doms d1] rv \<open>b\<close> xs True show ?thesis by simp
      next
        case False
        with run' rv \<open>b\<close> xs
        have "ac3_loop cw (butlast arc_queue @ map (\<lambda>neigh. (x, neigh)) (neighbors cw x)) d1
              = Inr (r, doms')"
          unfolding ac3_loop_snoc by simp
        then have again: "ac3_loop cw
             (butlast arc_queue @
              map (\<lambda>neigh. (fst (last arc_queue), neigh)) (neighbors cw (fst (last arc_queue))))
             d1 = Inr (r, doms')"
          using arc by simp
        have xs': "map_of d1 (fst (last arc_queue)) = Some xs" using xs arc by simp
        have "P d1 r doms'"
          by (rule "1.IH"(1) [OF nonempty rv' refl \<open>b\<close> xs' False again stop fail step])
        with rv xs False show ?thesis by (intro step [of x y doms b d1]) auto
      qed
    qed
  qed
qed

lemma ac3_loop_shrinks: "ac3_loop cw q doms = Inr (r, doms') \<Longrightarrow> shrinks doms doms'"
proof (erule ac3_loop_rule [where P = "\<lambda>d r d'. shrinks d d'"], goal_cases)
  case (1 d)
  show ?case by (rule shrinks_refl)
next
  case (2 d x y d1)
  then show ?case by (blast dest: revise_shrinks)
next
  case (3 d x y b d1 r d2)
  then show ?case by (blast dest: revise_shrinks intro: shrinks_trans)
qed

lemma ac3_shrinks: "ac3 cw arcs doms = Inr (r, doms') \<Longrightarrow> shrinks doms doms'"
  by (auto simp: ac3_def split: option.splits dest: ac3_loop_shrinks)

lemma revise_True_nonempty:
  "revise cw x y doms = Inr (True, doms') \<Longrightarrow> \<exists>xs. map_of doms x = Some xs \<and> xs \<noteq> []"
  by (auto simp: revise_def split: sum.splits option.splits)

lemma revise_words_other:
  "revise_words x y ov ws doms rm = Inr (b, doms') \<Longrightarrow> z \<noteq> x \<Longrightarrow>
   map_of doms' z = map_of doms z"
proof (induction ws arbitrary: doms rm)
  case Nil
  then show ?case by simp
next
  case (Cons word rest)
  from Cons.prems have inrange: "fst ov < length word"
    by (auto split: if_splits)
  from Cons.prems inrange obtain ys where ys: "map_of doms y = Some ys"
    by (auto split: option.splits)
  from Cons.prems inrange ys obtain possible where
    possible: "any_match (snd ov) (word ! fst ov) ys = Inr possible"
    by (auto split: sum.splits)
  show ?case
  proof (cases possible)
    case True
    with Cons.prems inrange ys possible
    have "revise_words x y ov rest doms rm = Inr (b, doms')" by simp
    from Cons.IH [OF this Cons.prems(2)] show ?thesis .
  next
    case False
    with Cons.prems inrange ys possible obtain cur cur' where
      run: "revise_words x y ov rest (AList.update x cur' doms) True = Inr (b, doms')"
      by (auto split: option.splits sum.splits)
    from Cons.IH [OF run Cons.prems(2)] Cons.prems(2) show ?thesis
      by (simp add: map_of_update_other)
  qed
qed

lemma revise_other:
  "revise cw x y doms = Inr (b, doms') \<Longrightarrow> z \<noteq> x \<Longrightarrow> map_of doms' z = map_of doms z"
  by (auto simp: revise_def split: sum.splits option.splits dest: revise_words_other)

lemma ac3_loop_outcome: "ac3_loop cw q doms = Inr (r, doms') \<Longrightarrow> ac3_outcome doms r doms'"
proof (erule ac3_loop_rule [where P = ac3_outcome], goal_cases)
  case (1 d)
  show ?case by (simp add: ac3_outcome_def)
next
  case (2 d x y d1)
  from revise_True_nonempty [OF 2(1)] 2(2) show ?case
    by (auto simp: ac3_outcome_def)
next
  case (3 d x y b d1 r d2)
  have sh: "shrinks d d1" using 3(1) by (rule revise_shrinks)
  have "r \<noteq> Some True" using 3(3) by (simp add: ac3_outcome_def)
  moreover have "\<exists>z zs. map_of d z = Some zs \<and> zs \<noteq> [] \<and> map_of d2 z = Some []"
    if "r = Some False"
  proof -
    from 3(3) that obtain z zs1 where z: "map_of d1 z = Some zs1" "zs1 \<noteq> []" "map_of d2 z = Some []"
      by (auto simp: ac3_outcome_def)
    from shrinks_map_of_rev [OF sh z(1)] obtain zs where "map_of d z = Some zs" "set zs1 \<subseteq> set zs"
      by blast
    moreover from this z(2) have "zs \<noteq> []" by auto
    ultimately show ?thesis using z(3) by blast
  qed
  moreover have "map_of d2 z \<noteq> Some []" if "r = None" and dz: "map_of d z = Some zs" and ne: "zs \<noteq> []"
    for z zs
  proof -
    have "\<exists>zs1. map_of d1 z = Some zs1 \<and> zs1 \<noteq> []"
    proof (cases "b \<and> z = x")
      case True
      with 3(2) show ?thesis by simp
    next
      case False
      then consider "\<not> b" | "z \<noteq> x" by blast
      then have "map_of d1 z = map_of d z"
      proof cases
        case 1
        with revise_size [OF 3(1)] show ?thesis by simp
      next
        case 2
        with revise_other [OF 3(1)] show ?thesis by simp
      qed
      with dz ne show ?thesis by simp
    qed
    with 3(3) that(1) show ?thesis by (auto simp: ac3_outcome_def)
  qed
  ultimately show ?case unfolding ac3_outcome_def by blast
qed

lemma ac3_loop_stable:
  "\<forall>arc\<in>set q. revise cw (fst arc) (snd arc) doms = Inr (False, doms) \<Longrightarrow>
   ac3_loop cw q doms = Inr (None, doms)"
proof (induction q rule: rev_induct)
  case Nil
  show ?case by (rule ac3_loop_empty)
next
  case (snoc arc q)
  obtain x y where arc: "arc = (x, y)" by (cases arc)
  from snoc.prems arc have "revise cw x y doms = Inr (False, doms)" by simp
  then have "ac3_loop cw (q @ [arc]) doms = ac3_loop cw q doms"
    unfolding arc ac3_loop_snoc by simp
  with snoc show ?case by simp
qed

lemma all_arcs_mem:
  "arc \<in> set (all_arcs doms) \<Longrightarrow>
   fst arc \<in> set (map fst doms) \<and> snd arc \<in> set (map fst doms) \<and> fst arc \<noteq> snd arc"
  by (force simp: all_arcs_def)

lemma revise_empty_domain:
  assumes "x \<noteq> y" and "x \<in> set (variables cw)" and "y \<in> set (variables cw)"
    and "map_of doms x = Some []"
  shows "revise cw x y doms = Inr (False, doms)"
  using assms by (simp add: revise_def overlaps_get_def split: option.splits)

lemma ac3_all_empty:
  assumes empty: "\<forall>p\<in>set doms. snd p = []"
    and keys: "set (map fst doms) \<subseteq> set (variables cw)"
  shows "ac3 cw None doms = Inr (None, doms)"
proof -
  have "revise cw (fst arc) (snd arc) doms = Inr (False, doms)" if "arc \<in> set (all_arcs doms)" for arc
  proof -
    from all_arcs_mem [OF that] have x: "fst arc \<in> set (map fst doms)"
      and y: "snd arc \<in> set (map fst doms)" and ne: "fst arc \<noteq> snd arc" by simp_all
    from x obtain xs where "map_of doms (fst arc) = Some xs"
      by (metis map_of_eq_None_iff not_Some_eq set_map)
    moreover from this have "(fst arc, xs) \<in> set doms" by (rule map_of_SomeD)
    ultimately have "map_of doms (fst arc) = Some []" using empty by auto
    with ne x y keys show ?thesis by (intro revise_empty_domain) auto
  qed
  then show ?thesis by (simp add: ac3_def ac3_loop_stable)
qed

lemma grid3_ac3_first: "ac3 grid3 None grid3_seeded = Inr (None, grid3_first)"
  by (simp add: run_defs)

lemma grid3_ac3_second: "ac3 grid3 None grid3_first = Inr (None, grid3_second)"
  by (simp add: run_defs)

lemma clash_ac3_first: "ac3 grid_clash None clash_seeded = Inr (Some False, clash_first)"
  by (simp add: run_defs)

lemma clash_ac3_second: "ac3 grid_clash None clash_first = Inr (Some False, clash_second)"
  by (simp add: run_defs)

lemma clash_enforce: "enforce_node_consistency grid_clash (init grid_clash) = Inr clash_seeded"
  by (simp add: run_defs)

text \<open>
  C9. Domains only ever shrink. The one primitive that writes to a domain, \<open>remove\<close> on a
  set, returns a subset that is no longer; and whenever \<open>enforce_node_consistency\<close>,
  \<open>revise\<close> or \<open>ac3\<close> returns, every variable's domain in the store it leaves is a subset of,
  and no longer than, that variable's domain in the store it was given. \<open>backtrack\<close>
  contains no write to \<open>self.domains\<close>: it takes the store as an argument and returns none.
\<close>

theorem domains_only_shrink:
  "(\<forall>ws'. set_remove w ws = Inr ws' \<longrightarrow> set ws' \<subseteq> set ws \<and> length ws' \<le> length ws) \<and>
   (\<forall>doms'. enforce_node_consistency cw doms = Inr doms' \<longrightarrow> shrinks doms doms') \<and>
   (\<forall>b doms'. revise cw x y doms = Inr (b, doms') \<longrightarrow> shrinks doms doms') \<and>
   (\<forall>r doms'. ac3 cw arcs doms = Inr (r, doms') \<longrightarrow> shrinks doms doms')"
  using set_remove_shrinks [of w ws] enforce_vars_shrinks [of cw "variables cw" doms]
    revise_shrinks [of cw x y doms] ac3_shrinks [of cw arcs doms]
  by (simp add: enforce_node_consistency_def)

theorem domains_only_shrink_witness:
  "set_remove ''AB'' [''AAA'', ''AB''] = Inr [''AAA''] \<and>
   enforce_node_consistency grid3 (init grid3) = Inr grid3_seeded \<and>
   shrinks (init grid3) grid3_seeded \<and>
   revise grid3 slot_bottom slot_down grid3_seeded
     = Inr (True, AList.update slot_bottom [''AAA'', ''EDF''] grid3_seeded) \<and>
   shrinks grid3_seeded (AList.update slot_bottom [''AAA'', ''EDF''] grid3_seeded) \<and>
   ac3 grid3 None grid3_seeded = Inr (None, grid3_first) \<and>
   shrinks grid3_seeded grid3_first"
proof -
  have a: "set_remove ''AB'' [''AAA'', ''AB''] = Inr [''AAA'']"
    by (simp add: set_remove_def)
  have b: "enforce_node_consistency grid3 (init grid3) = Inr grid3_seeded"
    by (simp add: run_defs)
  have c: "revise grid3 slot_bottom slot_down grid3_seeded
     = Inr (True, AList.update slot_bottom [''AAA'', ''EDF''] grid3_seeded)"
    by (simp add: run_defs)
  note d = grid3_ac3_first
  from domains_only_shrink [of "''AB''" "[''AAA'', ''AB'']" grid3 "init grid3"
      slot_bottom slot_down None] b
  have "shrinks (init grid3) grid3_seeded" by blast
  moreover from domains_only_shrink [of "''AB''" "[''AAA'', ''AB'']" grid3 grid3_seeded
      slot_bottom slot_down None] c d
  have "shrinks grid3_seeded (AList.update slot_bottom [''AAA'', ''EDF''] grid3_seeded)"
    and "shrinks grid3_seeded grid3_first" by blast+
  ultimately show ?thesis using a b c d by simp
qed

text \<open>
  C10. Whatever arcs and store \<open>ac3\<close> is given, when it returns, its value is False or None
  and never True; it is False only when a domain that was not empty before the call is
  empty after it, and None only when there is no such domain. When all domains are empty
  before the call, \<open>ac3\<close> with the default arcs returns None and leaves the store as it
  was. \<open>solve\<close> does not look at the value: it runs \<open>backtrack\<close> on the store \<open>ac3\<close>
  left, whether \<open>ac3\<close> returned False or None.
\<close>

theorem ac3_result:
  "(\<forall>r doms'. ac3 cw arcs doms = Inr (r, doms') \<longrightarrow>
      r \<noteq> Some True \<and>
      (r = Some False \<longrightarrow>
         (\<exists>x xs. map_of doms x = Some xs \<and> xs \<noteq> [] \<and> map_of doms' x = Some [])) \<and>
      (r = None \<longrightarrow>
         (\<forall>x xs. map_of doms x = Some xs \<and> xs \<noteq> [] \<longrightarrow> map_of doms' x \<noteq> Some []))) \<and>
   ((\<forall>p\<in>set doms. snd p = []) \<and> set (map fst doms) \<subseteq> set (variables cw) \<longrightarrow>
      ac3 cw None doms = Inr (None, doms)) \<and>
   (\<forall>d r d'. enforce_node_consistency cw (init cw) = Inr d \<and> ac3 cw None d = Inr (r, d') \<longrightarrow>
      solve cw = backtrack cw d' [])"
proof (intro conjI allI impI)
  fix r doms'
  assume "ac3 cw arcs doms = Inr (r, doms')"
  then have o: "ac3_outcome doms r doms'"
    by (auto simp: ac3_def split: option.splits dest: ac3_loop_outcome)
  from o show "r \<noteq> Some True" by (simp add: ac3_outcome_def)
  from o show "\<exists>x xs. map_of doms x = Some xs \<and> xs \<noteq> [] \<and> map_of doms' x = Some []"
    if "r = Some False" using that by (simp add: ac3_outcome_def)
  from o show "map_of doms' x \<noteq> Some []"
    if "r = None" and "map_of doms x = Some xs \<and> xs \<noteq> []" for x xs
    using that unfolding ac3_outcome_def by blast
next
  assume "(\<forall>p\<in>set doms. snd p = []) \<and> set (map fst doms) \<subseteq> set (variables cw)"
  then show "ac3 cw None doms = Inr (None, doms)" by (intro ac3_all_empty) auto
next
  fix d r d'
  assume "enforce_node_consistency cw (init cw) = Inr d \<and> ac3 cw None d = Inr (r, d')"
  then show "solve cw = backtrack cw d' []" by (simp add: solve_def)
qed

theorem ac3_result_witness:
  "ac3 grid3 None grid3_seeded = Inr (None, grid3_first) \<and>
   ac3 grid_clash None clash_seeded = Inr (Some False, clash_first) \<and>
   map_of clash_seeded slot_bottom = Some [''ABC'', ''DEF''] \<and>
   map_of clash_first slot_bottom = Some [] \<and>
   ac3 grid3 None grid3_emptied = Inr (None, grid3_emptied) \<and>
   enforce_node_consistency grid_clash (init grid_clash) = Inr clash_seeded \<and>
   solve grid_clash = backtrack grid_clash clash_first []"
proof -
  have keys: "(\<forall>p\<in>set grid3_emptied. snd p = []) \<and>
              set (map fst grid3_emptied) \<subseteq> set (variables grid3)"
    by (simp add: run_defs)
  with ac3_result [of grid3 None grid3_emptied]
  have "ac3 grid3 None grid3_emptied = Inr (None, grid3_emptied)" by blast
  moreover from ac3_result [of grid_clash None clash_seeded] clash_enforce clash_ac3_first
  have "solve grid_clash = backtrack grid_clash clash_first []" by blast
  moreover have "map_of clash_seeded slot_bottom = Some [''ABC'', ''DEF'']"
    "map_of clash_first slot_bottom = Some []"
    by (simp_all add: run_defs)
  ultimately show ?thesis
    using grid3_ac3_first clash_ac3_first clash_enforce by simp
qed

section \<open>Arc consistency of the result\<close>

lemma map_of_key:
  "x \<in> set (map fst doms) \<Longrightarrow> \<exists>xs. map_of doms x = Some xs \<and> (x, xs) \<in> set doms"
  by (metis map_of_SomeD map_of_eq_None_iff not_Some_eq set_map)

lemma revise_arc_consistent:
  assumes ac: "arc_consistent cw doms" and nc: "node_consistent doms"
    and rng: "overlaps_in_range cw" and keys: "set (map fst doms) \<subseteq> set (variables cw)"
    and sets: "sets_of_words doms"
    and x: "x \<in> set (map fst doms)" and y: "y \<in> set (map fst doms)" and ne: "x \<noteq> y"
  shows "revise cw x y doms = Inr (False, doms)"
proof (cases "overlaps cw (x, y)")
  case None
  with ne x y keys show ?thesis by (intro revise_no_overlap) auto
next
  case (Some ov)
  obtain kx ky where ov: "ov = (kx, ky)" by (cases ov)
  from map_of_key [OF x] obtain xs where xs: "map_of doms x = Some xs" "(x, xs) \<in> set doms"
    by blast
  from map_of_key [OF y] obtain ys where ys: "map_of doms y = Some ys" "(y, ys) \<in> set doms"
    by blast
  have "x \<in> set (variables cw)" "y \<in> set (variables cw)" using x y keys by auto
  with rng have "case overlaps cw (x, y) of None \<Rightarrow> True
                 | Some (kx, ky) \<Rightarrow> kx < var_length x \<and> ky < var_length y"
    unfolding overlaps_in_range_def by blast
  with Some ov have idx: "kx < var_length x" "ky < var_length y" by simp_all
  have inx: "\<forall>w\<in>set xs. kx < length w" using nc xs(2) idx(1)
    by (auto simp: node_consistent_def)
  have iny: "\<forall>w\<in>set ys. ky < length w" using nc ys(2) idx(2)
    by (auto simp: node_consistent_def)
  have dx: "distinct xs" using sets xs(2) by (auto simp: sets_of_words_def)
  let ?xs' = "filter (\<lambda>w. \<exists>w'\<in>set ys. w ! kx = w' ! ky) xs"
  have run: "revise cw x y doms = Inr (?xs' \<noteq> xs, AList.update x ?xs' doms)"
    using ne x y keys xs(1) ys(1) dx Some ov inx iny by (intro revise_overlap) auto
  have "\<forall>w\<in>set xs. \<exists>w'\<in>set ys. w ! kx = w' ! ky"
    using ac x y ne Some ov xs(1) ys(1)
    by (fastforce simp: arc_consistent_def domain_of_def)
  then have "?xs' = xs" by (simp add: filter_id_conv)
  with run xs(1) show ?thesis by (simp add: update_triv)
qed

lemma ac3_arc_consistent:
  assumes "arc_consistent cw doms" and "node_consistent doms" and "overlaps_in_range cw"
    and "set (map fst doms) \<subseteq> set (variables cw)" and "sets_of_words doms"
  shows "ac3 cw None doms = Inr (None, doms)"
proof -
  have "revise cw (fst arc) (snd arc) doms = Inr (False, doms)"
    if "arc \<in> set (all_arcs doms)" for arc
    using all_arcs_mem [OF that] assms by (intro revise_arc_consistent) auto
  then show ?thesis by (simp add: ac3_def ac3_loop_stable)
qed

text \<open>
  C1. The claim is that after a run of \<open>ac3\<close> that returns without reporting an empty
  domain the store is arc consistent. On the three-slot grid, seeded by node consistency
  from the words AAA, EDF, BCD and AB, \<open>ac3\<close> returns None and leaves EDF in the domain
  of the bottom slot, whose second letter D must equal the third letter of the crossing
  slot; the only word left for that slot is AAA.
\<close>

theorem ac3_leaves_unsupported_word:
  "enforce_node_consistency grid3 (init grid3) = Inr grid3_seeded \<and>
   ac3 grid3 None grid3_seeded = Inr (None, grid3_first) \<and>
   overlaps grid3 (slot_bottom, slot_down) = Some (1, 2) \<and>
   map_of grid3_first slot_bottom = Some [''AAA'', ''EDF''] \<and>
   map_of grid3_first slot_down = Some [''AAA''] \<and>
   ''EDF'' ! 1 \<noteq> ''AAA'' ! 2"
  by (simp add: run_defs)

lemma grid3_first_not_arc_consistent: "\<not> arc_consistent grid3 grid3_first"
  by (simp add: arc_consistent_def domain_of_def run_defs)

text \<open>
  C4, as stated, fails. A run that stops at an empty domain leaves the rest of the worklist
  unrevised, and the next run empties the domain of the top slot; and after the run of
  C1 above, which returned None, the next run removes EDF.
\<close>

theorem ac3_second_run_counterexample:
  "ac3 grid_clash None clash_seeded = Inr (Some False, clash_first) \<and>
   ac3 grid_clash None clash_first = Inr (Some False, clash_second) \<and>
   map_of clash_first slot_top = Some [''ABC'', ''DEF''] \<and>
   map_of clash_second slot_top = Some [] \<and>
   ac3 grid3 None grid3_seeded = Inr (None, grid3_first) \<and>
   ac3 grid3 None grid3_first = Inr (None, grid3_second) \<and>
   map_of grid3_first slot_bottom = Some [''AAA'', ''EDF''] \<and>
   map_of grid3_second slot_bottom = Some [''AAA'']"
  by (simp add: run_defs)

text \<open>
  C4, amended. When the store a run of \<open>ac3\<close> has left is arc consistent (its keys being
  variables of the grid, its domains sets of words of their variable's length, and the
  overlap indices within the slots), running \<open>ac3\<close> again returns None and leaves every
  variable's domain exactly as it was.
\<close>

theorem ac3_second_run_unchanged:
  assumes "arc_consistent cw doms" and "node_consistent doms" and "overlaps_in_range cw"
    and "set (map fst doms) \<subseteq> set (variables cw)" and "sets_of_words doms"
  shows "ac3 cw None doms = Inr (None, doms)"
  using assms by (rule ac3_arc_consistent)

theorem ac3_second_run_unchanged_witness:
  "ac3 grid3 None grid3_first = Inr (None, grid3_second) \<and>
   arc_consistent grid3 grid3_second \<and>
   ac3 grid3 None grid3_second = Inr (None, grid3_second)"
proof -
  have a: "arc_consistent grid3 grid3_second"
    by (simp add: arc_consistent_def domain_of_def run_defs)
  have b: "node_consistent grid3_second" "overlaps_in_range grid3"
    "set (map fst grid3_second) \<subseteq> set (variables grid3)" "sets_of_words grid3_second"
    by (simp_all add: node_consistent_def overlaps_in_range_def sets_of_words_def run_defs)
  from ac3_second_run_unchanged [OF a b] a show ?thesis
    by (simp add: grid3_ac3_second)
qed

section \<open>Ordering the values of a variable\<close>

lemma count_matching_Inr:
  "count_matching spot c ws = Inr n \<Longrightarrow> n = length (filter (\<lambda>w. w ! spot = c) ws)"
  by (induction ws arbitrary: n) (auto split: if_splits sum.splits)

lemma count_matching_total:
  "\<forall>w\<in>set ws. spot < length w \<Longrightarrow> \<exists>n. count_matching spot c ws = Inr n"
  by (induction ws) auto

lemma length_filter_neq:
  "length ws - length (filter (\<lambda>w. w ! spot = c) ws) = length (filter (\<lambda>w. w ! spot \<noteq> c) ws)"
  using sum_length_filter_compl [of "\<lambda>w. w ! spot = c" ws] by simp

lemma overlap_count_Inr:
  "overlap_count doms c spot v = Inr n \<Longrightarrow>
   n = length (filter (\<lambda>w. w ! spot \<noteq> c) (domain_of doms v))"
  by (auto simp: overlap_count_def domain_of_def length_filter_neq
      split: option.splits sum.splits dest!: count_matching_Inr)

lemma sort_function_Inr:
  "sort_function cw doms var nbrs word acc = Inr n \<Longrightarrow>
   n = acc + sum_list (map (eliminated_from cw doms var word) nbrs)"
proof (induction nbrs arbitrary: acc)
  case Nil
  then show ?case by simp
next
  case (Cons neigh rest)
  from Cons.prems obtain ov where og: "overlaps_get cw var neigh = Inr (Some ov)"
    by (auto split: sum.splits option.splits)
  then have ov: "overlaps cw (var, neigh) = Some ov"
    by (auto simp: overlaps_get_def split: if_splits)
  from Cons.prems og have inrange: "fst ov < length word" by (auto split: if_splits)
  from Cons.prems og inrange obtain m where
    m: "overlap_count doms (word ! fst ov) (snd ov) neigh = Inr m"
    and run: "sort_function cw doms var rest word (acc + m) = Inr n"
    by (auto split: sum.splits)
  from overlap_count_Inr [OF m] ov have "m = eliminated_from cw doms var word neigh"
    by (cases ov) (simp add: eliminated_from_def)
  with Cons.IH [OF run] show ?case by simp
qed

lemma sort_keys_Inr:
  "sort_keys cw doms var nbrs ws = Inr ks \<Longrightarrow>
   ks = map (\<lambda>w. sum_list (map (eliminated_from cw doms var w) nbrs)) ws"
proof (induction ws arbitrary: ks)
  case Nil
  then show ?case by simp
next
  case (Cons word rest)
  from Cons.prems obtain k ks' where k: "sort_function cw doms var nbrs word 0 = Inr k"
    and run: "sort_keys cw doms var nbrs rest = Inr ks'" and ks: "ks = k # ks'"
    by (auto split: sum.splits)
  from sort_function_Inr [OF k] Cons.IH [OF run] ks show ?case by simp
qed

lemma sorted_by_mset: "length ks = length ws \<Longrightarrow> mset (sorted_by ks ws) = mset ws"
proof -
  assume len: "length ks = length ws"
  have "mset (sorted_by ks ws) = image_mset snd (mset (sort_key fst (zip ks ws)))"
    by (simp add: sorted_by_def)
  also have "\<dots> = image_mset snd (mset (zip ks ws))" by simp
  also have "\<dots> = mset (map snd (zip ks ws))" by simp
  also have "\<dots> = mset ws" using len by simp
  finally show ?thesis .
qed

lemma sorted_by_sorted: "sorted (map f (sorted_by (map f ws) ws))"
proof -
  let ?zs = "sort_key fst (zip (map f ws) ws)"
  have "\<forall>p\<in>set ?zs. f (snd p) = fst p" by (auto simp: set_zip)
  then have "map (f \<circ> snd) ?zs = map fst ?zs" by (intro map_cong) auto
  then have eq: "map f (sorted_by (map f ws) ws) = map fst ?zs"
    unfolding sorted_by_def map_map .
  show ?thesis unfolding eq by (rule sorted_sort_key)
qed

lemma sorted_map_zero: "sorted (map (\<lambda>w. 0 :: nat) ws)"
  by (induction ws) auto

lemma order_domain_values_Inr:
  assumes "order_domain_values cw doms var a = Inr ordered"
  shows "mset ordered = mset (domain_of doms var) \<and>
         sorted (map (eliminated cw doms a var) ordered)"
proof -
  let ?nbrs = "filter (\<lambda>v. v \<notin> set (map fst a)) (neighbors cw var)"
  from assms obtain ws where ws: "map_of doms var = Some ws"
    by (auto simp: order_domain_values_def split: if_splits option.splits)
  then have dom: "domain_of doms var = ws" by (simp add: domain_of_def)
  show ?thesis
  proof (cases "length ?nbrs = 0")
    case True
    with assms ws have "ordered = ws" by (simp add: order_domain_values_def)
    moreover from True have "eliminated cw doms a var = (\<lambda>w. 0)"
      by (simp add: eliminated_def fun_eq_iff)
    ultimately show ?thesis using dom by (simp add: sorted_map_zero)
  next
    case False
    with assms ws obtain ks where ks: "sort_keys cw doms var ?nbrs ws = Inr ks"
      and ord: "ordered = sorted_by ks ws"
      by (auto simp: order_domain_values_def split: sum.splits)
    from sort_keys_Inr [OF ks] have keys: "ks = map (eliminated cw doms a var) ws"
      by (simp add: eliminated_def)
    from keys ord have "mset ordered = mset ws" by (simp add: sorted_by_mset)
    moreover from keys ord have "sorted (map (eliminated cw doms a var) ordered)"
      by (simp add: sorted_by_sorted)
    ultimately show ?thesis using dom by simp
  qed
qed

lemma sort_function_total:
  "\<forall>n\<in>set nbrs. can_count cw doms var word n \<Longrightarrow>
   \<exists>k. sort_function cw doms var nbrs word acc = Inr k"
proof (induction nbrs arbitrary: acc)
  case Nil
  show ?case by simp
next
  case (Cons neigh rest)
  from Cons.prems obtain kx ky ns where og: "overlaps_get cw var neigh = Inr (Some (kx, ky))"
    and kx: "kx < length word" and ns: "map_of doms neigh = Some ns"
    and ky: "\<forall>w'\<in>set ns. ky < length w'"
    unfolding can_count_def by auto
  from count_matching_total [OF ky, of "word ! kx"] obtain m where
    "count_matching ky (word ! kx) ns = Inr m" by blast
  with ns have oc: "overlap_count doms (word ! kx) ky neigh = Inr (length ns - m)"
    by (simp add: overlap_count_def)
  from Cons.prems have "\<forall>n\<in>set rest. can_count cw doms var word n" by simp
  from Cons.IH [OF this, of "acc + (length ns - m)"] og kx oc show ?case by simp
qed

lemma sort_keys_total:
  "\<forall>word\<in>set ws. \<forall>n\<in>set nbrs. can_count cw doms var word n \<Longrightarrow>
   \<exists>ks. sort_keys cw doms var nbrs ws = Inr ks"
proof (induction ws)
  case Nil
  show ?case by simp
next
  case (Cons word rest)
  from Cons.prems have "\<forall>n\<in>set nbrs. can_count cw doms var word n" by simp
  from sort_function_total [OF this, of 0] obtain k where
    "sort_function cw doms var nbrs word 0 = Inr k" by blast
  moreover from Cons obtain ks where "sort_keys cw doms var nbrs rest = Inr ks" by auto
  ultimately show ?case by simp
qed

lemma order_domain_values_total:
  assumes var: "var \<in> set (variables cw)" and nb: "neighbors_overlap cw"
    and rng: "overlaps_in_range cw" and nc: "node_consistent doms"
    and keys: "set (variables cw) \<subseteq> set (map fst doms)"
  shows "\<exists>ordered. order_domain_values cw doms var a = Inr ordered"
proof -
  let ?nbrs = "filter (\<lambda>v. v \<notin> set (map fst a)) (neighbors cw var)"
  from var keys have "var \<in> set (map fst doms)" by auto
  from map_of_key [OF this] obtain ws where ws: "map_of doms var = Some ws" "(var, ws) \<in> set doms"
    by blast
  have "can_count cw doms var word n" if word: "word \<in> set ws" and n: "n \<in> set ?nbrs" for word n
  proof -
    from n have n': "n \<in> set (neighbors cw var)" by simp
    with nb var have nv: "n \<in> set (variables cw)" and ne: "n \<noteq> var"
      and ov: "overlaps cw (var, n) \<noteq> None"
      unfolding neighbors_overlap_def by blast+
    from ov obtain kx ky where k: "overlaps cw (var, n) = Some (kx, ky)" by auto
    from rng var nv have "case overlaps cw (var, n) of None \<Rightarrow> True
                 | Some (kx, ky) \<Rightarrow> kx < var_length var \<and> ky < var_length n"
      unfolding overlaps_in_range_def by blast
    with k have idx: "kx < var_length var" "ky < var_length n" by simp_all
    from nv keys have "n \<in> set (map fst doms)" by auto
    from map_of_key [OF this] obtain ns where ns: "map_of doms n = Some ns" "(n, ns) \<in> set doms"
      by blast
    have "overlaps_get cw var n = Inr (Some (kx, ky))"
      using var nv ne k by (simp add: overlaps_get_def)
    moreover have "kx < length word" using nc ws(2) word idx(1)
      by (auto simp: node_consistent_def)
    moreover have "\<forall>w'\<in>set ns. ky < length w'" using nc ns(2) idx(2)
      by (auto simp: node_consistent_def)
    ultimately show ?thesis using ns(1) unfolding can_count_def by blast
  qed
  then have "\<forall>word\<in>set ws. \<forall>n\<in>set ?nbrs. can_count cw doms var word n" by blast
  from sort_keys_total [OF this] obtain ks where "sort_keys cw doms var ?nbrs ws = Inr ks"
    by blast
  with ws(1) show ?thesis by (simp add: order_domain_values_def)
qed

text \<open>
  C7. Whenever \<open>order_domain_values\<close> returns, the list it returns holds exactly the words
  of \<open>var\<close>'s current domain, in non-decreasing order of the number of words they eliminate
  from the domains of \<open>var\<close>'s unassigned neighbors; assigned neighbors are not counted.
  It does return for a variable of the grid when the store is node consistent and holds
  every variable, the neighbors of a variable overlap it and the overlap indices lie within
  the slots.
\<close>

theorem order_domain_values_spec:
  "(\<forall>ordered. order_domain_values cw doms var a = Inr ordered \<longrightarrow>
      mset ordered = mset (domain_of doms var) \<and>
      sorted (map (eliminated cw doms a var) ordered)) \<and>
   (var \<in> set (variables cw) \<and> neighbors_overlap cw \<and> overlaps_in_range cw \<and>
    node_consistent doms \<and> set (variables cw) \<subseteq> set (map fst doms) \<longrightarrow>
      (\<exists>ordered. order_domain_values cw doms var a = Inr ordered))"
  using order_domain_values_Inr [of cw doms var a]
    order_domain_values_total [of var cw doms a]
  by blast

lemmas order_defs = order_domain_values_def sorted_by_def overlap_count_def

theorem order_domain_values_spec_witness:
  "order_domain_values grid3 grid3_seeded slot_down [] = Inr [''AAA'', ''BCD'', ''EDF''] \<and>
   domain_of grid3_seeded slot_down = [''AAA'', ''EDF'', ''BCD''] \<and>
   map (eliminated grid3 grid3_seeded [] slot_down) [''AAA'', ''BCD'', ''EDF''] = [4, 5, 6] \<and>
   order_domain_values grid3 grid3_seeded slot_down [(slot_top, ''AAA'')]
     = Inr [''AAA'', ''BCD'', ''EDF''] \<and>
   map (eliminated grid3 grid3_seeded [(slot_top, ''AAA'')] slot_down) [''AAA'', ''BCD'', ''EDF'']
     = [2, 2, 3] \<and>
   slot_down \<in> set (variables grid3) \<and> neighbors_overlap grid3 \<and> overlaps_in_range grid3 \<and>
   node_consistent grid3_seeded \<and> set (variables grid3) \<subseteq> set (map fst grid3_seeded)"
proof -
  have run: "order_domain_values grid3 grid3_seeded slot_down [] = Inr [''AAA'', ''BCD'', ''EDF'']"
    "order_domain_values grid3 grid3_seeded slot_down [(slot_top, ''AAA'')]
     = Inr [''AAA'', ''BCD'', ''EDF'']"
    by (simp_all add: order_defs run_defs)
  have wf: "slot_down \<in> set (variables grid3) \<and> neighbors_overlap grid3 \<and>
    overlaps_in_range grid3 \<and> node_consistent grid3_seeded \<and>
    set (variables grid3) \<subseteq> set (map fst grid3_seeded)"
    by (simp add: neighbors_overlap_def overlaps_in_range_def node_consistent_def run_defs)
  have el: "map (eliminated grid3 grid3_seeded [] slot_down) [''AAA'', ''BCD'', ''EDF''] = [4, 5, 6]"
    "map (eliminated grid3 grid3_seeded [(slot_top, ''AAA'')] slot_down) [''AAA'', ''BCD'', ''EDF'']
     = [2, 2, 3]"
    "domain_of grid3_seeded slot_down = [''AAA'', ''EDF'', ''BCD'']"
    by (simp_all add: eliminated_def eliminated_from_def domain_of_def run_defs)
  from order_domain_values_spec [of grid3 grid3_seeded slot_down "[]"] wf run(1)
  have "mset [''AAA'', ''BCD'', ''EDF''] = mset (domain_of grid3_seeded slot_down)"
    by blast
  with run wf el show ?thesis by simp
qed

section \<open>Choosing the next variable\<close>

text \<open>
  C2. The claim is that \<open>select_unassigned_variable\<close> returns an unassigned variable with
  the fewest remaining words. On the corner grid with the words CAT, CODE and COLD, after
  node consistency and \<open>ac3\<close>, the slot across has one word left and the slot down two;
  with nothing assigned, the function returns the slot down.
\<close>

theorem select_unassigned_variable_takes_last:
  "enforce_node_consistency corner (init corner) = Inr corner_seeded \<and>
   ac3 corner None corner_seeded = Inr (None, corner_seeded) \<and>
   select_unassigned_variable corner corner_seeded [] = Some slot_down4 \<and>
   map_of corner_seeded slot_down4 = Some [''CODE'', ''COLD''] \<and>
   map_of corner_seeded slot_across3 = Some [''CAT'']"
  by (simp add: corner_defs run_defs select_unassigned_variable_def)

lemma select_loop_keeps: "select_loop cw a doms m h (Some v) \<noteq> None"
  by (induction doms arbitrary: v) auto

lemma select_loop_picks:
  "(v, ws) \<in> set doms \<Longrightarrow> v \<notin> set (map fst a) \<Longrightarrow> length ws < m \<Longrightarrow>
   select_loop cw a doms m h cur \<noteq> None"
proof (induction doms arbitrary: cur)
  case Nil
  then show ?case by simp
next
  case (Cons p doms)
  obtain u us where p: "p = (u, us)" by (cases p)
  show ?case
  proof (cases "(v, ws) = p")
    case True
    with Cons.prems p have "select_loop cw a (p # doms) m h cur = select_loop cw a doms m h (Some v)"
      by auto
    then show ?thesis by (simp add: select_loop_keeps)
  next
    case False
    with Cons.prems have "(v, ws) \<in> set doms" by auto
    from Cons.IH [OF this Cons.prems(2,3)] have "\<And>c. select_loop cw a doms m h c \<noteq> None" .
    then show ?thesis unfolding p by (simp del: set_map)
  qed
qed

lemma order_domain_values_empty:
  "map_of doms var = Some [] \<Longrightarrow> order_domain_values cw doms var a = Inr []"
  by (simp add: order_domain_values_def sorted_by_def)

lemma assignment_complete_empty:
  "variables cw \<noteq> [] \<Longrightarrow> \<not> assignment_complete cw []"
  by (cases "variables cw") (simp_all add: assignment_complete_def)

lemma backtrack_empty_domains:
  assumes "variables cw \<noteq> []" and "doms \<noteq> []" and "\<forall>p\<in>set doms. snd p = []"
  shows "backtrack cw doms [] = Inr None"
proof -
  from assms(2) obtain v ws where first: "(v, ws) \<in> set doms"
    by (cases doms) auto
  with assms(3) have "length ws < 1000000" by auto
  with first have "select_unassigned_variable cw doms [] \<noteq> None"
    unfolding select_unassigned_variable_def by (intro select_loop_picks) auto
  then obtain x where x: "select_unassigned_variable cw doms [] = Some x" by auto
  from select_unassigned_variable_Some [OF x] have "x \<in> set (map fst doms)" by simp
  from map_of_key [OF this] assms(3) have "map_of doms x = Some []" by auto
  then have "order_domain_values cw doms x [] = Inr []" by (rule order_domain_values_empty)
  with x assignment_complete_empty [OF assms(1)] show ?thesis
    by (simp add: backtrack.simps)
qed

lemma solve_no_variables: "variables cw = [] \<Longrightarrow> solve cw = Inr (Some [])"
  by (simp add: solve_def init_def enforce_node_consistency_def ac3_def all_arcs_def
      ac3_loop_empty backtrack.simps assignment_complete_def)

lemma solve_wrong_lengths:
  assumes nonempty: "variables cw \<noteq> []" and dv: "distinct (variables cw)"
    and dw: "distinct (words cw)"
    and wrong: "\<forall>v\<in>set (variables cw). \<forall>w\<in>set (words cw). length w \<noteq> var_length v"
  shows "solve cw = Inr None"
proof -
  from enforce_node_consistency_init [OF dv dw] obtain doms where
    run: "enforce_node_consistency cw (init cw) = Inr doms"
    and keys: "map fst doms = variables cw"
    and vals: "\<forall>v\<in>set (variables cw).
                 map_of doms v = Some (filter (\<lambda>w. length w = var_length v) (words cw))"
    by blast
  have empty: "\<forall>p\<in>set doms. snd p = []"
  proof
    fix p assume p: "p \<in> set doms"
    then have v: "fst p \<in> set (variables cw)" using keys by (metis imageI set_map)
    have "distinct (map fst doms)" using keys dv by simp
    with p have "map_of doms (fst p) = Some (snd p)"
      using map_of_is_SomeI [of doms "fst p" "snd p"] by simp
    with vals v have "snd p = filter (\<lambda>w. length w = var_length (fst p)) (words cw)" by simp
    also have "\<dots> = []" using wrong v by (simp add: filter_empty_conv)
    finally show "snd p = []" .
  qed
  have "ac3 cw None doms = Inr (None, doms)"
    using empty keys by (intro ac3_all_empty) auto
  moreover have "doms \<noteq> []" using keys nonempty by auto
  ultimately show ?thesis
    using run backtrack_empty_domains [OF nonempty _ empty] by (simp add: solve_def)
qed

section \<open>Unsatisfiable and empty puzzles\<close>

text \<open>
  C8. When the grid has a variable and no word of the dictionary has the length of any
  variable, \<open>solve\<close> returns normally with None; when the grid has no variable, \<open>solve\<close>
  returns the empty assignment. Neither run raises, and the two results differ.
\<close>

theorem solve_unsatisfiable_or_empty:
  "(variables cw \<noteq> [] \<and> distinct (variables cw) \<and> distinct (words cw) \<and>
    (\<forall>v\<in>set (variables cw). \<forall>w\<in>set (words cw). length w \<noteq> var_length v) \<longrightarrow>
      solve cw = Inr None) \<and>
   (variables cw = [] \<longrightarrow> solve cw = Inr (Some []))"
  using solve_wrong_lengths [of cw] solve_no_variables [of cw] by blast

theorem solve_unsatisfiable_or_empty_witness:
  "variables grid_misfit \<noteq> [] \<and> distinct (variables grid_misfit) \<and>
   distinct (words grid_misfit) \<and>
   list_all (\<lambda>v. list_all (\<lambda>w. length w \<noteq> var_length v) (words grid_misfit))
     (variables grid_misfit) \<and>
   solve grid_misfit = Inr None \<and>
   variables grid_blocked = [] \<and> solve grid_blocked = Inr (Some [])"
proof -
  have a: "variables grid_misfit \<noteq> [] \<and> distinct (variables grid_misfit) \<and>
   distinct (words grid_misfit) \<and>
   (\<forall>v\<in>set (variables grid_misfit). \<forall>w\<in>set (words grid_misfit). length w \<noteq> var_length v)"
    by (simp add: grid_misfit_def run_defs)
  have b: "variables grid_blocked = []" by (simp add: grid_blocked_def)
  from solve_unsatisfiable_or_empty [of grid_misfit] a
  have "solve grid_misfit = Inr None" by blast
  moreover from solve_unsatisfiable_or_empty [of grid_blocked] b
  have "solve grid_blocked = Inr (Some [])" by blast
  ultimately show ?thesis using a b by (simp add: list_all_iff)
qed

section \<open>Soundness of the search\<close>

lemma values_update: "set (map snd (AList.update v w a)) \<subseteq> insert w (set (map snd a))"
  by (induction a) auto

lemma values_delete: "set (map snd (AList.delete v a)) \<subseteq> set (map snd a)"
  by (induction a) auto

lemma values_delete_update:
  "set (map snd (AList.delete v (AList.update v w a))) \<subseteq> set (map snd a)"
  using values_delete [of v a] by (simp add: delete_update_same)

lemma order_domain_values_words:
  "order_domain_values cw doms var a = Inr ordered \<Longrightarrow> set ordered \<subseteq> store_words doms"
proof -
  assume run: "order_domain_values cw doms var a = Inr ordered"
  then obtain ws where ws: "map_of doms var = Some ws"
    by (auto simp: order_domain_values_def split: if_splits option.splits)
  from order_domain_values_Inr [OF run] ws have "mset ordered = mset ws"
    by (simp add: domain_of_def)
  then have "set ordered = set ws" by (rule mset_eq_setD)
  moreover from ws have "(var, ws) \<in> set doms" by (rule map_of_SomeD)
  ultimately show ?thesis by (force simp: store_words_def)
qed

lemma subset_later: "A \<subseteq> B \<union> R \<union> S \<Longrightarrow> B \<subseteq> C \<Longrightarrow> A \<subseteq> C \<union> insert w R \<union> S"
  by blast

lemma subset_now: "A \<subseteq> B \<union> S \<Longrightarrow> B \<subseteq> insert w C \<Longrightarrow> A \<subseteq> C \<union> insert w R \<union> S"
  by blast

lemma backtrack_sound_both:
  "(\<forall>r. backtrack cw doms a = Inr (Some r) \<longrightarrow>
      assignment_complete cw r \<and> (r = a \<or> consistent cw r = Inr True) \<and>
      set (map snd r) \<subseteq> set (map snd a) \<union> store_words doms)"
  "(\<forall>r. backtrack_words cw doms v ws a = Inr (Some r) \<longrightarrow>
      assignment_complete cw r \<and> consistent cw r = Inr True \<and>
      set (map snd r) \<subseteq> set (map snd a) \<union> set ws \<union> store_words doms)"
proof (induction cw doms a and cw doms v ws a rule: backtrack_backtrack_words.induct)
  case (1 cw doms a)
  show ?case
  proof (intro allI impI)
    fix r assume run: "backtrack cw doms a = Inr (Some r)"
    show "assignment_complete cw r \<and> (r = a \<or> consistent cw r = Inr True) \<and>
          set (map snd r) \<subseteq> set (map snd a) \<union> store_words doms"
    proof (cases "assignment_complete cw a")
      case True
      with run have "r = a" by (simp add: backtrack.simps)
      with True show ?thesis by simp
    next
      case False
      with run obtain x where x: "select_unassigned_variable cw doms a = Some x"
        by (auto simp: backtrack.simps split: option.splits)
      with run False obtain ordered where ord: "order_domain_values cw doms x a = Inr ordered"
        by (auto simp: backtrack.simps split: sum.splits)
      with run False x have "backtrack_words cw doms x ordered a = Inr (Some r)"
        by (simp add: backtrack.simps)
      with "1.IH" [OF False x ord]
      have "assignment_complete cw r" "consistent cw r = Inr True"
        "set (map snd r) \<subseteq> set (map snd a) \<union> set ordered \<union> store_words doms"
        by blast+
      with order_domain_values_words [OF ord] show ?thesis by blast
    qed
  qed
next
  case (2 cw doms new_var a)
  show ?case by simp
next
  case (3 cw doms new_var word rest a)
  let ?a1 = "AList.update new_var word a"
  let ?a2 = "AList.delete new_var ?a1"
  show ?case
  proof (intro allI impI)
    fix r assume run: "backtrack_words cw doms new_var (word # rest) a = Inr (Some r)"
    let ?goal = "assignment_complete cw r \<and> consistent cw r = Inr True \<and>
          set (map snd r) \<subseteq> set (map snd a) \<union> set (word # rest) \<union> store_words doms"
    have later: ?goal if "backtrack_words cw doms new_var rest ?a2 = Inr (Some r)"
      and "\<forall>r. backtrack_words cw doms new_var rest ?a2 = Inr (Some r) \<longrightarrow>
             assignment_complete cw r \<and> consistent cw r = Inr True \<and>
             set (map snd r) \<subseteq> set (map snd ?a2) \<union> set rest \<union> store_words doms"
    proof -
      from that have c: "assignment_complete cw r" "consistent cw r = Inr True"
        and w: "set (map snd r) \<subseteq> set (map snd ?a2) \<union> set rest \<union> store_words doms"
        by blast+
      have "set (map snd r) \<subseteq> set (map snd a) \<union> set (word # rest) \<union> store_words doms"
        unfolding list.set(2) using w values_delete_update by (rule subset_later)
      with c show ?thesis by simp
    qed
    from run obtain b where b: "consistent cw ?a1 = Inr b"
      by (auto split: sum.splits)
    show ?goal
    proof (cases b)
      case False
      with run b have "backtrack_words cw doms new_var rest ?a2 = Inr (Some r)" by simp
      then show ?thesis using "3.IH"(4) [OF b False] by (rule later)
    next
      case True
      with run b obtain ba where ba: "backtrack cw doms ?a1 = Inr ba"
        by (auto split: sum.splits)
      show ?thesis
      proof (cases ba)
        case None
        with run b True ba have "backtrack_words cw doms new_var rest ?a2 = Inr (Some r)"
          by simp
        then show ?thesis using "3.IH"(2) [OF b True ba None] by (rule later)
      next
        case (Some result)
        with run b True ba obtain bb where bb: "consistent cw result = Inr bb"
          by (auto split: sum.splits)
        show ?thesis
        proof (cases bb)
          case False
          with run b True ba Some bb
          have "backtrack_words cw doms new_var rest ?a2 = Inr (Some r)" by simp
          then show ?thesis using "3.IH"(3) [OF b True ba Some bb False] by (rule later)
        next
          case True
          with run b \<open>b\<close> ba Some bb have r: "r = result" by simp
          from "3.IH"(1) [OF b \<open>b\<close>] ba Some r
          have c: "assignment_complete cw r"
            and w: "set (map snd r) \<subseteq> set (map snd ?a1) \<union> store_words doms"
            by blast+
          have "set (map snd r) \<subseteq> set (map snd a) \<union> set (word # rest) \<union> store_words doms"
            unfolding list.set(2) using w values_update by (rule subset_now)
          with c bb True r show ?thesis by simp
        qed
      qed
    qed
  qed
qed

lemma assignment_complete_vars_bound:
  "assignment_complete_vars vs r \<Longrightarrow> \<forall>v\<in>set vs. \<exists>w. map_of r v = Some w \<and> w \<noteq> []"
  by (induction vs) (auto split: option.splits if_splits)

lemma shrinks_words: "shrinks a b \<Longrightarrow> store_words b \<subseteq> store_words a"
  unfolding shrinks_def store_words_def
  by (induction a b rule: list_all2_induct) auto

lemma store_words_init: "store_words (init cw) \<subseteq> set (words cw)"
  by (auto simp: store_words_def init_def)

lemma backtrack_sound_store:
  assumes run: "backtrack cw doms a = Inr (Some r)"
    and start: "assignment_complete cw a \<longrightarrow> consistent cw a = Inr True"
    and given: "set (map snd a) \<subseteq> set (words cw)"
    and store: "store_words doms \<subseteq> set (words cw)"
  shows "assignment_complete cw r \<and> (\<forall>v\<in>set (variables cw). \<exists>w. map_of r v = Some w) \<and>
         consistent cw r = Inr True \<and> set (map snd r) \<subseteq> set (words cw)"
proof -
  from backtrack_sound_both(1) [of cw doms a] run
  have c: "assignment_complete cw r" and k: "r = a \<or> consistent cw r = Inr True"
    and w: "set (map snd r) \<subseteq> set (map snd a) \<union> store_words doms"
    by blast+
  from k c start have "consistent cw r = Inr True" by auto
  moreover from w given store have "set (map snd r) \<subseteq> set (words cw)" by blast
  moreover from assignment_complete_vars_bound [of "variables cw" r] c
  have "\<forall>v\<in>set (variables cw). \<exists>w. map_of r v = Some w"
    by (auto simp: assignment_complete_def)
  ultimately show ?thesis using c by simp
qed

lemma solve_sound:
  assumes "solve cw = Inr (Some r)"
  shows "assignment_complete cw r \<and> (\<forall>v\<in>set (variables cw). \<exists>w. map_of r v = Some w) \<and>
         consistent cw r = Inr True \<and> set (map snd r) \<subseteq> set (words cw)"
proof -
  from assms obtain d1 where d1: "enforce_node_consistency cw (init cw) = Inr d1"
    by (auto simp: solve_def split: sum.splits)
  with assms obtain res d2 where d2: "ac3 cw None d1 = Inr (res, d2)"
    by (auto simp: solve_def split: sum.splits)
  with assms d1 have run: "backtrack cw d2 [] = Inr (Some r)" by (simp add: solve_def)
  from d1 have "shrinks (init cw) d1"
    by (auto simp: enforce_node_consistency_def dest: enforce_vars_shrinks)
  moreover from d2 have "shrinks d1 d2" by (rule ac3_shrinks)
  ultimately have "store_words d2 \<subseteq> set (words cw)"
    using shrinks_words store_words_init by blast
  with run show ?thesis
    by (intro backtrack_sound_store [of cw d2 "[]"]) (simp_all add: consistent_def)
qed

lemmas search_defs = backtrack.simps consistent_def assignment_complete_def
  select_unassigned_variable_def order_domain_values_def sorted_by_def overlap_count_def

text \<open>
  C3, as stated, fails. \<open>backtrack\<close> hands back an assignment that is already complete
  without checking it: called on the complete assignment that binds AAA to all three slots,
  it returns that assignment, on which \<open>consistent\<close> returns False. And it never looks at
  the words it was given: called with ZAZ bound to the top slot, it returns a complete
  assignment that still binds ZAZ, which is no word of the dictionary.
\<close>

theorem backtrack_unchecked_start:
  "backtrack grid_fill fill_seeded fill_repeated = Inr (Some fill_repeated) \<and>
   consistent grid_fill fill_repeated = Inr False \<and>
   backtrack grid_fill fill_seeded [(slot_top, ''ZAZ'')] = Inr (Some fill_foreign) \<and>
   map_of fill_foreign slot_top = Some ''ZAZ'' \<and>
   ''ZAZ'' \<notin> set (words grid_fill)"
  by (simp add: grid_fill_def fill_seeded_def fill_repeated_def fill_foreign_def
      search_defs run_defs)

text \<open>
  C3, amended. If \<open>backtrack\<close> is called on an assignment that is not already complete
  and inconsistent and whose words are words of the dictionary (the empty assignment that
  \<open>solve\<close> passes is one), with a store whose words are words of the dictionary, and it
  returns an assignment, then that assignment is complete (every variable of the grid is
  bound), \<open>consistent\<close> returns True on it, and every bound word is a word of the
  dictionary. In particular this holds of every assignment that \<open>solve\<close> returns.
\<close>

theorem backtrack_sound:
  "(\<forall>r. backtrack cw doms a = Inr (Some r) \<and>
        (assignment_complete cw a \<longrightarrow> consistent cw a = Inr True) \<and>
        set (map snd a) \<subseteq> set (words cw) \<and> store_words doms \<subseteq> set (words cw) \<longrightarrow>
      assignment_complete cw r \<and> (\<forall>v\<in>set (variables cw). \<exists>w. map_of r v = Some w) \<and>
      consistent cw r = Inr True \<and> set (map snd r) \<subseteq> set (words cw)) \<and>
   (\<forall>r. solve cw = Inr (Some r) \<longrightarrow>
      assignment_complete cw r \<and> (\<forall>v\<in>set (variables cw). \<exists>w. map_of r v = Some w) \<and>
      consistent cw r = Inr True \<and> set (map snd r) \<subseteq> set (words cw))"
  using backtrack_sound_store [of cw doms a] solve_sound [of cw] by blast

lemma fill_enforce: "enforce_node_consistency grid_fill (init grid_fill) = Inr fill_seeded"
  by (simp add: grid_fill_def fill_seeded_def run_defs)

lemma fill_ac3: "ac3 grid_fill None fill_seeded = Inr (None, fill_seeded)"
  by (simp add: grid_fill_def fill_seeded_def run_defs)

lemma fill_backtrack: "backtrack grid_fill fill_seeded [] = Inr (Some fill_solution)"
  by (simp add: grid_fill_def fill_seeded_def fill_solution_def search_defs run_defs)

lemma fill_solve: "solve grid_fill = Inr (Some fill_solution)"
  by (simp add: solve_def fill_enforce fill_ac3 fill_backtrack)

theorem backtrack_sound_witness:
  "backtrack grid_fill fill_seeded [] = Inr (Some fill_solution) \<and>
   solve grid_fill = Inr (Some fill_solution) \<and>
   \<not> assignment_complete grid_fill [] \<and>
   set (map snd ([] :: assignment)) \<subseteq> set (words grid_fill) \<and>
   store_words fill_seeded \<subseteq> set (words grid_fill) \<and>
   assignment_complete grid_fill fill_solution \<and>
   consistent grid_fill fill_solution = Inr True \<and>
   set (map snd fill_solution) \<subseteq> set (words grid_fill)"
proof -
  have h: "\<not> assignment_complete grid_fill []"
    "set (map snd ([] :: assignment)) \<subseteq> set (words grid_fill)"
    "store_words fill_seeded \<subseteq> set (words grid_fill)"
    by (simp_all add: assignment_complete_def store_words_def grid_fill_def fill_seeded_def run_defs)
  from backtrack_sound [of grid_fill fill_seeded "[]"] fill_backtrack h
  have "assignment_complete grid_fill fill_solution \<and>
   consistent grid_fill fill_solution = Inr True \<and>
   set (map snd fill_solution) \<subseteq> set (words grid_fill)"
    by blast
  with h fill_backtrack fill_solve show ?thesis by simp
qed

end
